theory Spec2Isabelle
  imports Complex_Main
begin

section \<open>Code Break: line rotation, brick layout and the breakout simulation\<close>

text \<open>
  A shallow embedding of \<^verbatim>\<open>code_break_ida.py\<close>. Python integers are \<open>int\<close>;
  Python floats are idealised as \<open>real\<close> (no rounding, no NaN); a Python exception is
  a value of \<open>py_error\<close> on the left of a sum.
\<close>

subsection \<open>Python primitives used by the rotation\<close>

datatype py_error = ZeroDivisionError | IndexError

text \<open>\<^verbatim>\<open>a % b\<close> on integers: raises for a zero divisor, otherwise the result takes
  the sign of the divisor, as \<open>mod\<close> on \<open>int\<close> does.\<close>

definition py_mod :: "int \<Rightarrow> int \<Rightarrow> py_error + int" where
  "py_mod a b = (if b = 0 then Inl ZeroDivisionError else Inr (a mod b))"

text \<open>\<^verbatim>\<open>items[j]\<close> with an integer subscript: positions \<open>0 .. len - 1\<close> read from the
  front, \<open>- len .. - 1\<close> from the back, every other subscript raises.\<close>

definition py_getitem :: "'a list \<Rightarrow> int \<Rightarrow> py_error + 'a" where
  "py_getitem items j =
     (if 0 \<le> j \<and> j < int (length items) then Inr (items ! nat j)
      else if - int (length items) \<le> j \<and> j < 0 then Inr (items ! nat (int (length items) + j))
      else Inl IndexError)"

text \<open>\<^verbatim>\<open>range(k)\<close>: empty for \<open>k \<le> 0\<close>.\<close>

definition py_range :: "int \<Rightarrow> int list" where
  "py_range k = map int [0..<nat k]"

subsection \<open>\<^verbatim>\<open>_rotate_items_from_anchor\<close>\<close>

text \<open>The body of the \<^verbatim>\<open>for i in range(min(limit, n))\<close> loop, with \<open>out\<close> the list
  built so far.\<close>

fun rotate_loop :: "'a list \<Rightarrow> int \<Rightarrow> int \<Rightarrow> int list \<Rightarrow> 'a list \<Rightarrow> py_error + 'a list" where
  "rotate_loop items anchor_idx n [] out = Inr out"
| "rotate_loop items anchor_idx n (i # rest) out =
     (case py_mod (anchor_idx + i) n of
        Inl e \<Rightarrow> Inl e
      | Inr j \<Rightarrow>
          (case py_getitem items j of
             Inl e \<Rightarrow> Inl e
           | Inr x \<Rightarrow> rotate_loop items anchor_idx n rest (out @ [x])))"

definition rotate_items_from_anchor :: "'a list \<Rightarrow> int \<Rightarrow> int \<Rightarrow> py_error + 'a list" where
  "rotate_items_from_anchor items anchor_idx limit =
     (if items = [] then Inr []
      else
        let anchor_idx' =
              (if anchor_idx < 0 \<or> anchor_idx \<ge> int (length items) then 0 else anchor_idx);
            n = int (length items)
        in rotate_loop items anchor_idx' n (py_range (min limit n)) [])"

text \<open>The rotation law in the words of the specification: \<open>min(max_lines, L)\<close> entries,
  the \<open>i\<close>-th being the element at position \<open>(anchor_index + i) mod L\<close>.\<close>

definition rotation_law :: "'a list \<Rightarrow> int \<Rightarrow> int \<Rightarrow> 'a list" where
  "rotation_law items anchor_index max_lines =
     map (\<lambda>i. items ! nat ((anchor_index + int i) mod int (length items)))
       [0..<nat (min max_lines (int (length items)))]"

text \<open>The anchor the code really uses.\<close>

definition effective_anchor :: "'a list \<Rightarrow> int \<Rightarrow> int" where
  "effective_anchor items anchor_idx =
     (if anchor_idx < 0 \<or> anchor_idx \<ge> int (length items) then 0 else anchor_idx)"

subsection \<open>The tokenizer \<^verbatim>\<open>LINE_SPLIT_RE = re.compile(r"\S+|\s+")\<close>\<close>

text \<open>Python's whitespace test (\<^verbatim>\<open>\s\<close> of a \<^verbatim>\<open>str\<close> pattern and \<^verbatim>\<open>str.strip\<close> use the
  same one) on the code points below 256, which is what a \<open>char\<close> holds.\<close>

definition isspace :: "char \<Rightarrow> bool" where
  "isspace c = (of_char c \<in> {9, 10, 11, 12, 13, 28, 29, 30, 31, 32, 133, 160 :: nat})"

text \<open>\<^verbatim>\<open>findall\<close> for the alternation \<^verbatim>\<open>\S+|\s+\<close>: at the current position the first
  alternative takes the longest run of non-whitespace; where the character is
  whitespace the second alternative takes the longest run of whitespace; the scan resumes
  after the match. The whitespace test \<open>sp\<close> is a parameter.\<close>

function findall :: "('c \<Rightarrow> bool) \<Rightarrow> 'c list \<Rightarrow> 'c list list" where
  "findall sp [] = []"
| "findall sp (c # cs) =
     (if \<not> sp c
      then (c # takeWhile (\<lambda>d. \<not> sp d) cs) # findall sp (dropWhile (\<lambda>d. \<not> sp d) cs)
      else (c # takeWhile sp cs) # findall sp (dropWhile sp cs))"
  by pat_completeness auto
termination
  by (relation "measure (\<lambda>(sp, cs). length cs)")
     (auto simp: length_dropWhile_le less_Suc_eq_le)

definition LINE_SPLIT_RE_findall :: "string \<Rightarrow> string list" where
  "LINE_SPLIT_RE_findall line = findall isspace line"

text \<open>\<^verbatim>\<open>part.strip()\<close>: leading and trailing whitespace removed.\<close>

definition py_strip :: "string \<Rightarrow> string" where
  "py_strip s = rev (dropWhile isspace (rev (dropWhile isspace s)))"

subsection \<open>Data\<close>

text \<open>\<^verbatim>\<open>QRectF(x, y, w, h)\<close>.\<close>

record qrectf =
  rx :: real
  ry :: real
  rw :: real
  rh :: real

text \<open>The part of \<^verbatim>\<open>QFontMetrics\<close> that the layout reads.\<close>

record font_metrics =
  fm_height :: int
  fm_ascent :: int
  fm_horizontalAdvance :: "string \<Rightarrow> int"

text \<open>An entry of \<^verbatim>\<open>brick_labels\<close>, an entry of \<^verbatim>\<open>render_lines\<close> and a brick
  (dictionaries with fixed keys in the source).\<close>

record line_info =
  li_line_no :: int
  li_full_text :: string
  li_label :: string

record render_line =
  rl_line_no :: int
  rl_y_base :: int

record brick =
  rect :: qrectf
  label :: string
  full_text :: string
  line_no :: int
  draw_x :: int
  draw_y :: int
  alive :: bool

text \<open>What the widget reads from outside the simulation: its current size, the font
  metrics, Qt's \<^verbatim>\<open>QRectF.intersects\<close> and \<^verbatim>\<open>QRectF.contains\<close> (library code, taken as
  parameters), and what the host returns for \<^verbatim>\<open>_collect_decompiler_lines\<close> and
  \<^verbatim>\<open>_collect_disasm_lines\<close> (lines as pairs of number and text, and an anchor).\<close>

record env =
  width :: int
  height :: int
  fm :: font_metrics
  intersects :: "qrectf \<Rightarrow> qrectf \<Rightarrow> bool"
  contains :: "qrectf \<Rightarrow> real \<times> real \<Rightarrow> bool"
  decompiler_lines :: "(int \<times> string) list \<times> int"
  disasm_lines :: "(int \<times> string) list \<times> int"

text \<open>The attributes of \<^verbatim>\<open>CodeBreakWidget\<close> that change after construction.\<close>

record state =
  paddle_x :: real
  ball_x :: real
  ball_y :: real
  ball_vx :: real
  ball_vy :: real
  left_pressed :: bool
  right_pressed :: bool
  launched :: bool
  game_over :: bool
  score :: int
  lives :: int
  hover_text :: string
  render_lines :: "render_line list"
  brick_labels :: "line_info list"
  bricks :: "brick list"

text \<open>Attributes that \<^verbatim>\<open>_init_state\<close> assigns once and nothing assigns again.\<close>

definition paddle_w :: real where "paddle_w = 130"
definition paddle_h :: real where "paddle_h = 12"
definition paddle_speed :: real where "paddle_speed = 9"
definition ball_r :: real where "ball_r = 7"

definition MAX_BRICK_LINES :: int where "MAX_BRICK_LINES = 56"

subsection \<open>\<^verbatim>\<open>_extract_line_blocks_from_current_context\<close>\<close>

definition placeholder_lines :: "(int \<times> string) list" where
  "placeholder_lines =
     [(1, ''mov eax, ebx''), (2, ''cmp eax, 0''), (3, ''jne loc_next''),
      (4, ''call sub_handler''), (5, ''ret'')]"

definition extract_line_blocks_from_current_context :: "env \<Rightarrow> int \<Rightarrow> py_error + line_info list" where
  "extract_line_blocks_from_current_context e max_tokens =
     (let (ordered_lines, anchor_idx) = decompiler_lines e;
          (ordered_lines, anchor_idx) =
             (if ordered_lines = [] then disasm_lines e else (ordered_lines, anchor_idx));
          ordered_lines = (if ordered_lines = [] then placeholder_lines else ordered_lines)
      in case rotate_items_from_anchor ordered_lines anchor_idx max_tokens of
           Inl err \<Rightarrow> Inl err
         | Inr rotated \<Rightarrow>
             Inr (map (\<lambda>(line_no, line).
                    \<lparr>li_line_no = line_no, li_full_text = line, li_label = line\<rparr>) rotated))"

subsection \<open>\<^verbatim>\<open>_build_bricks\<close>\<close>

text \<open>The locals of \<^verbatim>\<open>_build_bricks\<close>; \<open>viewport_w\<close> and \<open>viewport_h\<close> are also the
  \<open>w\<close> and \<open>h\<close> of \<^verbatim>\<open>_tick\<close>. In \<open>max_visible_lines\<close> the source truncates a float
  quotient of two positive integers, which is their integer quotient.\<close>

definition viewport_w :: "env \<Rightarrow> int" where
  "viewport_w e = max 640 (width e)"

definition viewport_h :: "env \<Rightarrow> int" where
  "viewport_h e = max 360 (height e)"

definition code_left :: int where "code_left = 70"
definition code_top :: int where "code_top = 64"

definition code_right :: "env \<Rightarrow> int" where
  "code_right e = viewport_w e - 18"

definition line_h :: "env \<Rightarrow> int" where
  "line_h e = max 16 (fm_height (fm e) + 2)"

definition max_visible_lines :: "env \<Rightarrow> int" where
  "max_visible_lines e = max 1 ((viewport_h e - code_top - 70) div line_h e)"

definition y_base_of :: "env \<Rightarrow> nat \<Rightarrow> int" where
  "y_base_of e i = code_top + int i * line_h e + fm_ascent (fm e)"

text \<open>The inner loop \<^verbatim>\<open>for part in LINE_SPLIT_RE.findall(full_line)\<close>, from cursor
  \<open>x\<close>; \<^verbatim>\<open>break\<close> ends the row.\<close>

fun place_parts :: "env \<Rightarrow> int \<Rightarrow> line_info \<Rightarrow> int \<Rightarrow> string list \<Rightarrow> brick list" where
  "place_parts e y_base info x [] = []"
| "place_parts e y_base info x (part # rest) =
     (let part_w = max 1 (fm_horizontalAdvance (fm e) part) in
      if x + part_w > code_right e then []
      else
        (if py_strip part \<noteq> []
         then [\<lparr>rect = \<lparr>rx = of_int x, ry = of_int (y_base - fm_ascent (fm e)),
                        rw = of_int (max 6 part_w), rh = of_int (line_h e)\<rparr>,
                 label = part, full_text = li_full_text info, line_no = li_line_no info,
                 draw_x = x, draw_y = y_base, alive = True\<rparr>]
         else [])
        @ place_parts e y_base info (x + part_w) rest)"

text \<open>One iteration of the outer loop: the bricks of row \<open>i\<close>.\<close>

definition row_bricks :: "env \<Rightarrow> nat \<Rightarrow> line_info \<Rightarrow> brick list" where
  "row_bricks e i info =
     place_parts e (y_base_of e i) info code_left (LINE_SPLIT_RE_findall (li_full_text info))"

definition build_bricks :: "env \<Rightarrow> state \<Rightarrow> state" where
  "build_bricks e s =
     (let rows = enumerate 0 (take (nat (max_visible_lines e)) (brick_labels s)) in
      s\<lparr>render_lines :=
           map (\<lambda>(i, info). \<lparr>rl_line_no = li_line_no info, rl_y_base = y_base_of e i\<rparr>) rows,
         bricks := concat (map (\<lambda>(i, info). row_bricks e i info) rows)\<rparr>)"

subsection \<open>\<^verbatim>\<open>_find_hover_brick\<close>\<close>

fun hover_loop :: "env \<Rightarrow> real \<times> real \<Rightarrow> brick list \<Rightarrow> brick option" where
  "hover_loop e point [] = None"
| "hover_loop e point (b # bs) =
     (if alive b \<and> contains e (rect b) point then Some b else hover_loop e point bs)"

definition find_hover_brick :: "env \<Rightarrow> state \<Rightarrow> int \<times> int \<Rightarrow> brick option" where
  "find_hover_brick e s pos =
     (let point = (of_int (fst pos), of_int (snd pos)) in hover_loop e point (bricks s))"

subsection \<open>\<^verbatim>\<open>_reset_ball_on_paddle\<close>, \<^verbatim>\<open>_ball_rect\<close>, \<^verbatim>\<open>reload_bricks\<close>\<close>

definition reset_ball_on_paddle :: "env \<Rightarrow> state \<Rightarrow> state" where
  "reset_ball_on_paddle e s =
     (let h = max 300 (height e);
          px = max 10 (min (paddle_x s) (of_int (width e) - paddle_w - 10))
      in s\<lparr>paddle_x := px,
           ball_x := px + paddle_w / 2,
           ball_y := of_int h - 42,
           ball_vx := 3.8,
           ball_vy := - 4.6,
           launched := False\<rparr>)"

definition ball_rect :: "state \<Rightarrow> qrectf" where
  "ball_rect s =
     \<lparr>rx = ball_x s - ball_r, ry = ball_y s - ball_r, rw = ball_r * 2, rh = ball_r * 2\<rparr>"

definition reload_bricks :: "env \<Rightarrow> state \<Rightarrow> py_error + state" where
  "reload_bricks e s =
     (case extract_line_blocks_from_current_context e MAX_BRICK_LINES of
        Inl err \<Rightarrow> Inl err
      | Inr labels \<Rightarrow>
          Inr (reset_ball_on_paddle e (build_bricks e (s\<lparr>brick_labels := labels\<rparr>))))"

subsection \<open>\<^verbatim>\<open>_tick\<close>\<close>

text \<open>Lines 346 to 350: the paddle follows the input flags and is clamped.\<close>

definition move_paddle :: "env \<Rightarrow> state \<Rightarrow> state" where
  "move_paddle e s =
     (let s1 = (if left_pressed s then s\<lparr>paddle_x := paddle_x s - paddle_speed\<rparr> else s);
          s2 = (if right_pressed s1 then s1\<lparr>paddle_x := paddle_x s1 + paddle_speed\<rparr> else s1)
      in s2\<lparr>paddle_x := max 10 (min (paddle_x s2) (of_int (viewport_w e) - paddle_w - 10))\<rparr>)"

text \<open>Lines 362 to 373: integration and the three walls.\<close>

definition integrate_and_walls :: "env \<Rightarrow> state \<Rightarrow> state" where
  "integrate_and_walls e s =
     (let w = of_int (viewport_w e);
          s1 = s\<lparr>ball_x := ball_x s + ball_vx s, ball_y := ball_y s + ball_vy s\<rparr>;
          s2 = (if ball_x s1 - ball_r \<le> 0
                then s1\<lparr>ball_x := ball_r, ball_vx := ball_vx s1 * (- 1)\<rparr> else s1);
          s3 = (if ball_x s2 + ball_r \<ge> w
                then s2\<lparr>ball_x := w - ball_r, ball_vx := ball_vx s2 * (- 1)\<rparr> else s2);
          s4 = (if ball_y s3 - ball_r \<le> 0
                then s3\<lparr>ball_y := ball_r, ball_vy := ball_vy s3 * (- 1)\<rparr> else s3)
      in s4)"

text \<open>Lines 375 to 380: the paddle.\<close>

definition paddle_collision :: "env \<Rightarrow> state \<Rightarrow> state" where
  "paddle_collision e s =
     (let h = of_int (viewport_h e);
          paddle_rect = \<lparr>rx = paddle_x s, ry = h - 30, rw = paddle_w, rh = paddle_h\<rparr>
      in if intersects e (ball_rect s) paddle_rect \<and> ball_vy s > 0
         then
           (let hit = (ball_x s - paddle_x s) / paddle_w in
            s\<lparr>ball_y := h - 30 - ball_r,
              ball_vy := - \<bar>ball_vy s\<bar>,
              ball_vx := (hit - 0.5) * 10\<rparr>)
         else s)"

text \<open>Lines 382 to 388: the position of the first brick, in list order, that is alive and
  whose rectangle the ball's rectangle intersects; that brick is marked dead in place.\<close>

fun first_hit :: "env \<Rightarrow> qrectf \<Rightarrow> brick list \<Rightarrow> nat option" where
  "first_hit e brect [] = None"
| "first_hit e brect (b # bs) =
     (if alive b \<and> intersects e brect (rect b) then Some 0
      else map_option Suc (first_hit e brect bs))"

definition brick_collision :: "env \<Rightarrow> state \<Rightarrow> state" where
  "brick_collision e s =
     (let brect = ball_rect s in
      case first_hit e brect (bricks s) of
        None \<Rightarrow> s
      | Some i \<Rightarrow>
          s\<lparr>bricks := (bricks s)[i := (bricks s ! i)\<lparr>alive := False\<rparr>],
            score := score s + 10,
            ball_vy := ball_vy s * (- 1)\<rparr>)"

text \<open>Lines 390 and 391: a cleared level reloads.\<close>

definition level_clear :: "env \<Rightarrow> state \<Rightarrow> py_error + state" where
  "level_clear e s =
     (if bricks s \<noteq> [] \<and> \<not> list_ex alive (bricks s) then reload_bricks e s else Inr s)"

text \<open>Lines 393 to 399: the ball has left through the bottom.\<close>

definition bottom_fall :: "env \<Rightarrow> state \<Rightarrow> state" where
  "bottom_fall e s =
     (if ball_y s - ball_r > of_int (viewport_h e)
      then
        (let s1 = s\<lparr>lives := lives s - 1\<rparr> in
         if lives s1 \<le> 0 then s1\<lparr>game_over := True, launched := False\<rparr>
         else reset_ball_on_paddle e s1)
      else s)"

text \<open>The state of an in-play tick when line 382 (the scan of the bricks) is reached, and
  when line 393 (the test for the bottom edge) is reached.\<close>

definition at_brick_scan :: "env \<Rightarrow> state \<Rightarrow> state" where
  "at_brick_scan e s = paddle_collision e (integrate_and_walls e (move_paddle e s))"

definition before_bottom_check :: "env \<Rightarrow> state \<Rightarrow> py_error + state" where
  "before_bottom_check e s = level_clear e (brick_collision e (at_brick_scan e s))"

text \<open>\<^verbatim>\<open>self.update()\<close> only asks for a repaint and is left out.\<close>

definition tick :: "env \<Rightarrow> state \<Rightarrow> py_error + state" where
  "tick e s =
     (let s1 = move_paddle e s in
      if \<not> launched s1 \<and> \<not> game_over s1
      then Inr (s1\<lparr>ball_x := paddle_x s1 + paddle_w / 2, ball_y := of_int (viewport_h e) - 42\<rparr>)
      else if game_over s1 then Inr s1
      else
        (case before_bottom_check e s of
           Inl err \<Rightarrow> Inl err
         | Inr s2 \<Rightarrow> Inr (bottom_fall e s2)))"

text \<open>A run of ticks; before each one the key handlers have set the two input flags, and
  the widget may have been resized.\<close>

fun run_ticks :: "(env \<times> bool \<times> bool) list \<Rightarrow> state \<Rightarrow> py_error + state" where
  "run_ticks [] s = Inr s"
| "run_ticks ((e, l, r) # rest) s =
     (case tick e (s\<lparr>left_pressed := l, right_pressed := r\<rparr>) of
        Inl err \<Rightarrow> Inl err
      | Inr s' \<Rightarrow> run_ticks rest s')"

subsection \<open>Auxiliary notions for the statements\<close>

text \<open>The horizontal cursor when the loop of \<^verbatim>\<open>_build_bricks\<close> reaches token \<open>k\<close> of a
  row: the left margin plus the advances \<open>part_w\<close> of the tokens before it.\<close>

definition cursor_before :: "env \<Rightarrow> string list \<Rightarrow> nat \<Rightarrow> int" where
  "cursor_before e parts k =
     code_left + sum_list (map (\<lambda>part. max 1 (fm_horizontalAdvance (fm e) part)) (take k parts))"

text \<open>The positions whose brick is alive in the first list and dead in the second.\<close>

definition killed :: "brick list \<Rightarrow> brick list \<Rightarrow> nat set" where
  "killed old new =
     {j. j < length old \<and> j < length new \<and> alive (old ! j) \<and> \<not> alive (new ! j)}"

text \<open>The paddle lies between the two margins of the viewport of \<^verbatim>\<open>_tick\<close>.\<close>

definition paddle_in_bounds :: "env \<Rightarrow> state \<Rightarrow> bool" where
  "paddle_in_bounds e s =
     (10 \<le> paddle_x s \<and> paddle_x s \<le> of_int (viewport_w e) - paddle_w - 10)"

subsection \<open>Concrete inputs for evaluation\<close>

text \<open>A font of fixed pitch (every character advances by \<open>pitch\<close> pixels), and instances
  for the two Qt predicates that agree with Qt on rectangles of positive width and
  height: overlap in an area, and containment with the edges included.\<close>

definition fixed_pitch :: "int \<Rightarrow> font_metrics" where
  "fixed_pitch pitch =
     \<lparr>fm_height = 14, fm_ascent = 11, fm_horizontalAdvance = (\<lambda>text. pitch * int (length text))\<rparr>"

definition overlaps :: "qrectf \<Rightarrow> qrectf \<Rightarrow> bool" where
  "overlaps a b =
     (rx a < rx b + rw b \<and> rx b < rx a + rw a \<and> ry a < ry b + rh b \<and> ry b < ry a + rh a)"

definition holds_point :: "qrectf \<Rightarrow> real \<times> real \<Rightarrow> bool" where
  "holds_point a p =
     (rx a \<le> fst p \<and> fst p \<le> rx a + rw a \<and> ry a \<le> snd p \<and> snd p \<le> ry a + rh a)"

definition sample_env :: "int \<Rightarrow> int \<Rightarrow> env" where
  "sample_env wd pitch =
     \<lparr>width = wd, height = 520, fm = fixed_pitch pitch, intersects = overlaps,
      contains = holds_point, decompiler_lines = ([], 0), disasm_lines = ([], 0)\<rparr>"

definition sample_line :: "string \<Rightarrow> line_info" where
  "sample_line text = \<lparr>li_line_no = 1, li_full_text = text, li_label = text\<rparr>"

definition sample_brick :: "real \<Rightarrow> real \<Rightarrow> bool \<Rightarrow> brick" where
  "sample_brick x y a =
     \<lparr>rect = \<lparr>rx = x, ry = y, rw = 30, rh = 16\<rparr>, label = ''ret'', full_text = ''ret'',
      line_no = 1, draw_x = 0, draw_y = 0, alive = a\<rparr>"

text \<open>A state with the ball at \<open>(bx, by)\<close> moving down, the left key held, and three
  bricks of which the second and third cover the point \<open>(105, 105)\<close>.\<close>

definition sample_state :: "real \<Rightarrow> real \<Rightarrow> bool \<Rightarrow> bool \<Rightarrow> int \<Rightarrow> state" where
  "sample_state bx by la go lv =
     \<lparr>paddle_x = 300, ball_x = bx, ball_y = by, ball_vx = 3.8, ball_vy = 4.6,
      left_pressed = True, right_pressed = False, launched = la, game_over = go,
      score = 0, lives = lv, hover_text = [], render_lines = [], brick_labels = [],
      bricks = [sample_brick 400 100 True, sample_brick 100 100 True, sample_brick 90 95 True]\<rparr>"

section \<open>Theorems\<close>

subsection \<open>Rotation\<close>

lemma rotate_loop_in_range:
  assumes "0 \<le> a" "0 < length items" "n = int (length items)"
  shows "rotate_loop items a n (map int ks) out =
           Inr (out @ map (\<lambda>i. items ! nat ((a + int i) mod n)) ks)"
  using assms
proof (induction ks arbitrary: out)
  case Nil
  then show ?case by simp
next
  case (Cons k ks)
  have pos: "0 < n" using Cons.prems by simp
  have m: "py_mod (a + int k) n = Inr ((a + int k) mod n)"
    using pos by (simp add: py_mod_def)
  have lo: "0 \<le> (a + int k) mod n" using pos by simp
  have hi: "(a + int k) mod n < n" using pos by simp
  have g: "py_getitem items ((a + int k) mod n) = Inr (items ! nat ((a + int k) mod n))"
    using lo hi Cons.prems(3) by (simp add: py_getitem_def)
  show ?case
    using Cons.IH [OF Cons.prems] by (simp add: m g)
qed

lemma rotate_items_eq_law:
  "rotate_items_from_anchor items anchor_idx limit =
     Inr (rotation_law items (effective_anchor items anchor_idx) limit)"
proof (cases "items = []")
  case True
  then show ?thesis
    by (simp add: rotate_items_from_anchor_def rotation_law_def)
next
  case False
  then have len: "0 < length items" by simp
  have nonneg: "0 \<le> effective_anchor items anchor_idx"
    by (simp add: effective_anchor_def)
  show ?thesis
    using False rotate_loop_in_range [OF nonneg len refl, of "[0..<nat (min limit (int (length items)))]" "[]"]
    by (simp add: rotate_items_from_anchor_def rotation_law_def Let_def py_range_def
        effective_anchor_def)
qed

text \<open>
  Claim C1, as the specification states it: the result is \<open>rotation_law\<close> at the given
  anchor, for every anchor. It fails where the anchor is out of range: with five lines,
  anchor 7 and limit 4 the code starts at position 0, not at \<open>7 mod 5 = 2\<close>.
\<close>

theorem rotation_law_counterexample:
  "rotate_items_from_anchor [1, 2, 3, 4, 5 :: int] 7 4 = Inr [1, 2, 3, 4]
   \<and> rotation_law [1, 2, 3, 4, 5 :: int] 7 4 = [3, 4, 5, 1]
   \<and> rotate_items_from_anchor [1, 2, 3, 4, 5 :: int] 7 4
        \<noteq> Inr (rotation_law [1, 2, 3, 4, 5 :: int] 7 4)"
  by code_simp

text \<open>
  Claim C1, amended: for every non-empty line sequence of length \<open>L\<close>, every anchor and
  every limit, the rotation returns (without raising) exactly \<open>max(0, min(limit, L))\<close>
  entries, the \<open>i\<close>-th being the element at position \<open>(a + i) mod L\<close>, where \<open>a\<close> is the
  anchor when \<open>0 \<le> anchor < L\<close> and \<open>0\<close> otherwise.
\<close>

theorem rotation_from_effective_anchor:
  assumes "items \<noteq> []"
  shows "\<exists>out. rotate_items_from_anchor items anchor_idx limit = Inr out
           \<and> int (length out) = max 0 (min limit (int (length items)))
           \<and> (\<forall>i < length out.
                 out ! i = items ! nat ((effective_anchor items anchor_idx + int i) mod int (length items)))
           \<and> (0 \<le> anchor_idx \<and> anchor_idx < int (length items) \<longrightarrow> effective_anchor items anchor_idx = anchor_idx)
           \<and> (\<not> (0 \<le> anchor_idx \<and> anchor_idx < int (length items)) \<longrightarrow> effective_anchor items anchor_idx = 0)"
  using assms
  by (auto simp add: rotate_items_eq_law rotation_law_def effective_anchor_def)

theorem rotation_from_effective_anchor_witness:
  "[1, 2, 3, 4, 5 :: int] \<noteq> []
   \<and> rotate_items_from_anchor [1, 2, 3, 4, 5 :: int] 3 4 = Inr [4, 5, 1, 2]
   \<and> rotate_items_from_anchor [1, 2, 3, 4, 5 :: int] 3 (- 1) = Inr []
   \<and> (\<exists>out. rotate_items_from_anchor [1, 2, 3, 4, 5 :: int] 3 4 = Inr out
           \<and> int (length out) = 4 \<and> out ! 0 = 4 \<and> out ! 1 = 5 \<and> out ! 2 = 1 \<and> out ! 3 = 2)"
proof -
  have ne: "[1, 2, 3, 4, 5 :: int] \<noteq> []" by simp
  have v1: "rotate_items_from_anchor [1, 2, 3, 4, 5 :: int] 3 4 = Inr [4, 5, 1, 2]"
    by code_simp
  have v2: "rotate_items_from_anchor [1, 2, 3, 4, 5 :: int] 3 (- 1) = Inr []"
    by code_simp
  from rotation_from_effective_anchor [OF ne, of 3 4]
  obtain out where o: "rotate_items_from_anchor [1, 2, 3, 4, 5 :: int] 3 4 = Inr out"
    and l: "int (length out) = max 0 (min 4 (int (length [1, 2, 3, 4, 5 :: int])))"
    and e: "\<forall>i < length out. out ! i =
        [1, 2, 3, 4, 5 :: int] ! nat ((effective_anchor [1, 2, 3, 4, 5 :: int] 3 + int i) mod int (length [1, 2, 3, 4, 5 :: int]))"
    and a: "effective_anchor [1, 2, 3, 4, 5 :: int] 3 = 3"
    by auto
  have len: "length out = 4" using l by simp
  have "out ! 0 = 4" "out ! 1 = 5" "out ! 2 = 1" "out ! 3 = 2"
    using e len a by (simp_all add: nth_Cons')
  then show ?thesis using ne v1 v2 o len by simp
qed

text \<open>
  Claim C8: an anchor that is negative or not below the length of the sequence gives the
  same result as anchor 0, and the rotation raises for no input at all (the empty
  sequence included).
\<close>

theorem out_of_range_anchor_is_zero:
  "(anchor_idx < 0 \<or> anchor_idx \<ge> int (length items) \<longrightarrow>
      rotate_items_from_anchor items anchor_idx limit = rotate_items_from_anchor items 0 limit)
   \<and> (\<exists>out. rotate_items_from_anchor items anchor_idx limit = Inr out)"
  by (simp add: rotate_items_eq_law effective_anchor_def)

theorem out_of_range_anchor_is_zero_witness:
  "rotate_items_from_anchor [1, 2, 3, 4, 5 :: int] (- 2) 3 = Inr [1, 2, 3]
   \<and> rotate_items_from_anchor [1, 2, 3, 4, 5 :: int] 5 3 = Inr [1, 2, 3]"
proof -
  have z: "rotate_items_from_anchor [1, 2, 3, 4, 5 :: int] 0 3 = Inr [1, 2, 3]"
    by code_simp
  have "rotate_items_from_anchor [1, 2, 3, 4, 5 :: int] (- 2) 3
          = rotate_items_from_anchor [1, 2, 3, 4, 5 :: int] 0 3"
    using out_of_range_anchor_is_zero [of "- 2" "[1, 2, 3, 4, 5 :: int]" 3] by simp
  moreover have "rotate_items_from_anchor [1, 2, 3, 4, 5 :: int] 5 3
          = rotate_items_from_anchor [1, 2, 3, 4, 5 :: int] 0 3"
    using out_of_range_anchor_is_zero [of 5 "[1, 2, 3, 4, 5 :: int]" 3] by simp
  ultimately show ?thesis using z by simp
qed

subsection \<open>Tokenizer\<close>

lemma findall_concat: "concat (findall sp cs) = cs"
  by (induction sp cs rule: findall.induct) simp_all

lemma findall_hd:
  assumes "cs \<noteq> []"
  shows "findall sp cs \<noteq> [] \<and> hd (hd (findall sp cs)) = hd cs"
  using assms by (cases cs) auto

lemma findall_nonempty_iff: "findall sp cs = [] \<longleftrightarrow> cs = []"
  by (cases cs) auto

lemma run_same_class:
  assumes "P c" and "d \<in> set (c # takeWhile P cs)"
  shows "P d"
proof (cases "d = c")
  case True
  then show ?thesis using assms(1) by simp
next
  case False
  then have "d \<in> set (takeWhile P cs)" using assms(2) by simp
  then show ?thesis by (rule set_takeWhileD [THEN conjunct2])
qed

lemma findall_token:
  assumes "t \<in> set (findall sp cs)"
  shows "t \<noteq> [] \<and> ((\<forall>c \<in> set t. sp c) \<or> (\<forall>c \<in> set t. \<not> sp c))"
  using assms
proof (induction sp cs rule: findall.induct)
  case (1 sp)
  then show ?case by simp
next
  case (2 sp c cs)
  show ?case
  proof (cases "sp c")
    case True
    with "2.prems" have "t = c # takeWhile sp cs \<or> t \<in> set (findall sp (dropWhile sp cs))"
      by simp
    then show ?thesis
    proof
      assume t: "t = c # takeWhile sp cs"
      have "\<forall>d \<in> set t. sp d"
        unfolding t using run_same_class [of sp c _ cs, OF True] by blast
      then show ?thesis using t by blast
    next
      assume "t \<in> set (findall sp (dropWhile sp cs))"
      then show ?thesis using "2.IH"(2) True by blast
    qed
  next
    case False
    with "2.prems" have "t = c # takeWhile (\<lambda>d. \<not> sp d) cs
        \<or> t \<in> set (findall sp (dropWhile (\<lambda>d. \<not> sp d) cs))"
      by simp
    then show ?thesis
    proof
      assume t: "t = c # takeWhile (\<lambda>d. \<not> sp d) cs"
      have "\<forall>d \<in> set t. \<not> sp d"
        unfolding t using run_same_class [of "\<lambda>d. \<not> sp d" c _ cs, OF False] by blast
      then show ?thesis using t by blast
    next
      assume "t \<in> set (findall sp (dropWhile (\<lambda>d. \<not> sp d) cs))"
      then show ?thesis using "2.IH"(1) False by blast
    qed
  qed
qed

lemma findall_alternate:
  assumes "Suc i < length (findall sp cs)"
  shows "sp (hd (findall sp cs ! i)) \<noteq> sp (hd (findall sp cs ! Suc i))"
  using assms
proof (induction sp cs arbitrary: i rule: findall.induct)
  case (1 sp)
  then show ?case by simp
next
  case (2 sp c cs)
  define P where "P = (if sp c then sp else (\<lambda>d. \<not> sp d))"
  have Pc: "P c" by (simp add: P_def)
  have Pclass: "\<And>d. P d \<longleftrightarrow> sp d = sp c" by (auto simp: P_def)
  have unfold: "findall sp (c # cs) = (c # takeWhile P cs) # findall sp (dropWhile P cs)"
    by (simp add: P_def)
  have IH: "\<And>j. Suc j < length (findall sp (dropWhile P cs)) \<Longrightarrow>
       sp (hd (findall sp (dropWhile P cs) ! j)) \<noteq> sp (hd (findall sp (dropWhile P cs) ! Suc j))"
    using "2.IH" by (cases "sp c") (simp_all add: P_def)
  show ?case
  proof (cases i)
    case 0
    from "2.prems" unfold 0 have ne: "findall sp (dropWhile P cs) \<noteq> []" by auto
    then have rest: "dropWhile P cs \<noteq> []" by (simp add: findall_nonempty_iff)
    have "\<not> P (hd (dropWhile P cs))" using rest by (rule hd_dropWhile)
    then have "sp (hd (dropWhile P cs)) \<noteq> sp c" by (simp add: Pclass)
    moreover have "hd (findall sp (dropWhile P cs) ! 0) = hd (dropWhile P cs)"
      using findall_hd [OF rest, of sp] by (metis hd_conv_nth)
    ultimately show ?thesis unfolding unfold 0 by simp
  next
    case (Suc j)
    with "2.prems" unfold have "Suc j < length (findall sp (dropWhile P cs))" by simp
    from IH [OF this] show ?thesis unfolding unfold Suc by simp
  qed
qed

text \<open>
  Claim C6: for every line, the tokens that \<^verbatim>\<open>LINE_SPLIT_RE.findall\<close> returns concatenate,
  in order, to the line itself; each token is a non-empty run of whitespace only or of
  non-whitespace only; and the runs are maximal, since neighbouring tokens are of
  different kinds.
\<close>

theorem tokens_reconstruct_line:
  "concat (LINE_SPLIT_RE_findall line) = line
   \<and> (\<forall>t \<in> set (LINE_SPLIT_RE_findall line).
         t \<noteq> [] \<and> ((\<forall>c \<in> set t. isspace c) \<or> (\<forall>c \<in> set t. \<not> isspace c)))
   \<and> (\<forall>i. Suc i < length (LINE_SPLIT_RE_findall line) \<longrightarrow>
         isspace (hd (LINE_SPLIT_RE_findall line ! i))
           \<noteq> isspace (hd (LINE_SPLIT_RE_findall line ! Suc i)))"
proof (intro conjI ballI allI impI)
  show "concat (LINE_SPLIT_RE_findall line) = line"
    by (simp add: LINE_SPLIT_RE_findall_def findall_concat)
next
  fix t assume "t \<in> set (LINE_SPLIT_RE_findall line)"
  then have t: "t \<in> set (findall isspace line)" by (simp add: LINE_SPLIT_RE_findall_def)
  from findall_token [OF t] show "t \<noteq> []" by (rule conjunct1)
  from findall_token [OF t]
  show "(\<forall>c \<in> set t. isspace c) \<or> (\<forall>c \<in> set t. \<not> isspace c)"
    by (rule conjunct2)
next
  fix i assume "Suc i < length (LINE_SPLIT_RE_findall line)"
  then show "isspace (hd (LINE_SPLIT_RE_findall line ! i))
           \<noteq> isspace (hd (LINE_SPLIT_RE_findall line ! Suc i))"
    unfolding LINE_SPLIT_RE_findall_def by (rule findall_alternate)
qed


theorem tokens_reconstruct_line_witness:
  "LINE_SPLIT_RE_findall ''mov  eax, ebx'' = [''mov'', ''  '', ''eax,'', '' '', ''ebx'']
   \<and> concat (LINE_SPLIT_RE_findall ''mov  eax, ebx'') = ''mov  eax, ebx''
   \<and> ''eax,'' \<in> set (LINE_SPLIT_RE_findall ''mov  eax, ebx'')
   \<and> ((\<forall>c \<in> set ''eax,''. isspace c) \<or> (\<forall>c \<in> set ''eax,''. \<not> isspace c))
   \<and> Suc 0 < length (LINE_SPLIT_RE_findall ''mov  eax, ebx'')
   \<and> isspace (hd (LINE_SPLIT_RE_findall ''mov  eax, ebx'' ! 0))
        \<noteq> isspace (hd (LINE_SPLIT_RE_findall ''mov  eax, ebx'' ! Suc 0))"
proof -
  have v: "LINE_SPLIT_RE_findall ''mov  eax, ebx'' = [''mov'', ''  '', ''eax,'', '' '', ''ebx'']"
    by (simp add: LINE_SPLIT_RE_findall_def isspace_def)
  note T = tokens_reconstruct_line [of "''mov  eax, ebx''"]
  have c: "concat (LINE_SPLIT_RE_findall ''mov  eax, ebx'') = ''mov  eax, ebx''"
    using T by (rule conjunct1)
  have m: "''eax,'' \<in> set (LINE_SPLIT_RE_findall ''mov  eax, ebx'')"
    by (simp add: v)
  have k: "(\<forall>c \<in> set ''eax,''. isspace c) \<or> (\<forall>c \<in> set ''eax,''. \<not> isspace c)"
    using T m by blast
  have l: "Suc 0 < length (LINE_SPLIT_RE_findall ''mov  eax, ebx'')"
    by (simp add: v)
  have a: "isspace (hd (LINE_SPLIT_RE_findall ''mov  eax, ebx'' ! 0))
        \<noteq> isspace (hd (LINE_SPLIT_RE_findall ''mov  eax, ebx'' ! Suc 0))"
    using T l by blast
  show ?thesis using v c m k l a by blast
qed

subsection \<open>Hover query\<close>

lemma hover_loop_None:
  "hover_loop e p bs = None \<longleftrightarrow> (\<forall>b \<in> set bs. \<not> (alive b \<and> contains e (rect b) p))"
  by (induction bs) auto

lemma hover_loop_Some:
  assumes "hover_loop e p bs = Some b"
  shows "\<exists>i < length bs. bs ! i = b \<and> alive b \<and> contains e (rect b) p
           \<and> (\<forall>j < i. \<not> (alive (bs ! j) \<and> contains e (rect (bs ! j)) p))"
  using assms
proof (induction bs)
  case Nil
  then show ?case by simp
next
  case (Cons a bs)
  show ?case
  proof (cases "alive a \<and> contains e (rect a) p")
    case True
    with Cons.prems have "a = b" by simp
    with True have "(a # bs) ! 0 = b \<and> alive b \<and> contains e (rect b) p
           \<and> (\<forall>j < 0. \<not> (alive ((a # bs) ! j) \<and> contains e (rect ((a # bs) ! j)) p))"
      by simp
    then show ?thesis by blast
  next
    case False
    with Cons.prems have "hover_loop e p bs = Some b" by auto
    from Cons.IH [OF this] obtain i where i: "i < length bs" "bs ! i = b" "alive b"
      "contains e (rect b) p"
      "\<forall>j < i. \<not> (alive (bs ! j) \<and> contains e (rect (bs ! j)) p)"
      by blast
    have "\<forall>j < Suc i. \<not> (alive ((a # bs) ! j) \<and> contains e (rect ((a # bs) ! j)) p)"
    proof (intro allI impI)
      fix j assume "j < Suc i"
      then show "\<not> (alive ((a # bs) ! j) \<and> contains e (rect ((a # bs) ! j)) p)"
        using False i(5) by (cases j) simp_all
    qed
    with i have "Suc i < length (a # bs) \<and> (a # bs) ! Suc i = b \<and> alive b
        \<and> contains e (rect b) p
        \<and> (\<forall>j < Suc i. \<not> (alive ((a # bs) ! j) \<and> contains e (rect ((a # bs) ! j)) p))"
      by simp
    then show ?thesis by blast
  qed
qed

text \<open>
  Claim C10: the hover query returns none exactly when no brick of the current list is alive
  and contains the point; when it returns a brick, that brick is alive, contains the
  point, and no brick before it in the list is both alive and containing the point. A
  destroyed brick is therefore never returned.
\<close>

theorem hover_first_alive_containing:
  "(find_hover_brick e s pos = None \<longleftrightarrow>
      (\<forall>b \<in> set (bricks s).
          \<not> (alive b \<and> contains e (rect b) (of_int (fst pos), of_int (snd pos)))))
   \<and> (\<forall>b. find_hover_brick e s pos = Some b \<longrightarrow>
         (\<exists>i < length (bricks s). bricks s ! i = b \<and> alive b
            \<and> contains e (rect b) (of_int (fst pos), of_int (snd pos))
            \<and> (\<forall>j < i. \<not> (alive (bricks s ! j)
                  \<and> contains e (rect (bricks s ! j)) (of_int (fst pos), of_int (snd pos))))))"
  unfolding find_hover_brick_def Let_def
  using hover_loop_Some [of e "(of_int (fst pos), of_int (snd pos))" "bricks s"]
  by (simp add: hover_loop_None)

theorem hover_first_alive_containing_witness:
  "find_hover_brick (sample_env 800 7) (sample_state 350 350 True False 3) (105, 105)
     = Some (sample_brick 100 100 True)
   \<and> alive (sample_brick 100 100 True)
   \<and> contains (sample_env 800 7) (rect (sample_brick 100 100 True)) (105, 105)
   \<and> find_hover_brick (sample_env 800 7)
       ((sample_state 350 350 True False 3)
          \<lparr>bricks := [sample_brick 100 100 False, sample_brick 90 95 True]\<rparr>) (105, 105)
     = Some (sample_brick 90 95 True)
   \<and> find_hover_brick (sample_env 800 7)
       ((sample_state 350 350 True False 3)\<lparr>bricks := [sample_brick 100 100 False]\<rparr>) (105, 105)
     = None
   \<and> holds_point (rect (sample_brick 100 100 False)) (105, 105)"
proof -
  have v1: "find_hover_brick (sample_env 800 7) (sample_state 350 350 True False 3) (105, 105)
     = Some (sample_brick 100 100 True)"
    by (simp add: find_hover_brick_def sample_env_def sample_state_def sample_brick_def
        holds_point_def)
  have v2: "find_hover_brick (sample_env 800 7)
       ((sample_state 350 350 True False 3)
          \<lparr>bricks := [sample_brick 100 100 False, sample_brick 90 95 True]\<rparr>) (105, 105)
     = Some (sample_brick 90 95 True)"
    by (simp add: find_hover_brick_def sample_env_def sample_state_def sample_brick_def
        holds_point_def)
  have v3: "find_hover_brick (sample_env 800 7)
       ((sample_state 350 350 True False 3)\<lparr>bricks := [sample_brick 100 100 False]\<rparr>) (105, 105)
     = None"
    by (simp add: find_hover_brick_def sample_env_def sample_state_def sample_brick_def
        holds_point_def)
  have v4: "holds_point (rect (sample_brick 100 100 False)) (105, 105)"
    by (simp add: sample_brick_def holds_point_def)
  from hover_first_alive_containing
         [of "sample_env 800 7" "sample_state 350 350 True False 3" "(105, 105)"] v1
  have "alive (sample_brick 100 100 True)
      \<and> contains (sample_env 800 7) (rect (sample_brick 100 100 True))
           (of_int (fst (105 :: int, 105 :: int)), of_int (snd (105 :: int, 105 :: int)))"
    by blast
  then have "alive (sample_brick 100 100 True)
      \<and> contains (sample_env 800 7) (rect (sample_brick 100 100 True)) (105, 105)"
    by simp
  then show ?thesis using v1 v2 v3 v4 by blast
qed

subsection \<open>Layout: narrowing the viewport\<close>

lemma place_parts_length_mono:
  assumes "fm e1 = fm e2" and "code_right e1 \<le> code_right e2"
  shows "length (place_parts e1 y_base info x parts) \<le> length (place_parts e2 y_base info x parts)"
  using assms
proof (induction parts arbitrary: x)
  case Nil
  then show ?case by simp
next
  case (Cons part rest)
  define part_w where "part_w = max 1 (fm_horizontalAdvance (fm e2) part)"
  show ?case
  proof (cases "x + part_w > code_right e1")
    case True
    then show ?thesis using Cons.prems by (simp add: part_w_def Let_def)
  next
    case False
    then have "\<not> x + part_w > code_right e2" using Cons.prems(2) by simp
    with False Cons.IH [OF Cons.prems, of "x + part_w"] show ?thesis
      using Cons.prems(1) by (simp add: part_w_def Let_def)
  qed
qed

lemma code_right_mono:
  assumes "width e1 \<le> width e2"
  shows "code_right e1 \<le> code_right e2"
  using assms by (simp add: code_right_def viewport_w_def)

lemma row_bricks_length_mono:
  assumes "fm e1 = fm e2" and "width e1 \<le> width e2"
  shows "length (row_bricks e1 i info) \<le> length (row_bricks e2 i info)"
proof -
  have "y_base_of e1 i = y_base_of e2 i"
    using assms(1) by (simp add: y_base_of_def line_h_def)
  then show ?thesis
    unfolding row_bricks_def
    using place_parts_length_mono [OF assms(1) code_right_mono [OF assms(2)]] by simp
qed

lemma length_concat_mono:
  assumes "\<And>x. x \<in> set xs \<Longrightarrow> length (f x) \<le> length (g x)"
  shows "length (concat (map f xs)) \<le> length (concat (map g xs))"
  using assms by (induction xs) (simp_all add: add_mono)

text \<open>
  Claim C9: with the same font, a line laid out in a viewport of width \<open>w1\<close> gets at most
  as many bricks as in a viewport of width \<open>w2 \<ge> w1\<close>; with the same height as well, the
  same holds for the bricks of the whole layout.
\<close>

theorem narrowing_never_adds_bricks:
  assumes "fm e1 = fm e2" and "width e1 \<le> width e2"
  shows "length (row_bricks e1 i info) \<le> length (row_bricks e2 i info)
         \<and> (height e1 = height e2 \<longrightarrow>
              length (bricks (build_bricks e1 s)) \<le> length (bricks (build_bricks e2 s)))"
proof (intro conjI impI)
  show "length (row_bricks e1 i info) \<le> length (row_bricks e2 i info)"
    using assms by (rule row_bricks_length_mono)
next
  assume h: "height e1 = height e2"
  have m: "max_visible_lines e1 = max_visible_lines e2"
    using assms(1) h by (simp add: max_visible_lines_def viewport_h_def line_h_def)
  show "length (bricks (build_bricks e1 s)) \<le> length (bricks (build_bricks e2 s))"
    unfolding build_bricks_def Let_def m
    by (simp, rule length_concat_mono) (auto intro: row_bricks_length_mono [OF assms])
qed

theorem narrowing_never_adds_bricks_witness:
  "fm (sample_env 640 100) = fm (sample_env 1000 100)
   \<and> width (sample_env 640 100) \<le> width (sample_env 1000 100)
   \<and> map label (row_bricks (sample_env 640 100) 0 (sample_line ''mov eax, ebx'')) = [''mov'']
   \<and> map label (row_bricks (sample_env 1000 100) 0 (sample_line ''mov eax, ebx''))
        = [''mov'', ''eax,'']
   \<and> length (row_bricks (sample_env 640 100) 0 (sample_line ''mov eax, ebx''))
        \<le> length (row_bricks (sample_env 1000 100) 0 (sample_line ''mov eax, ebx''))"
proof -
  have f: "fm (sample_env 640 100) = fm (sample_env 1000 100)"
    by (simp add: sample_env_def)
  have w: "width (sample_env 640 100) \<le> width (sample_env 1000 100)"
    by (simp add: sample_env_def)
  have a: "map label (row_bricks (sample_env 640 100) 0 (sample_line ''mov eax, ebx'')) = [''mov'']"
    by (simp add: row_bricks_def sample_env_def sample_line_def fixed_pitch_def
        LINE_SPLIT_RE_findall_def isspace_def py_strip_def code_right_def viewport_w_def
        code_left_def)
  have b: "map label (row_bricks (sample_env 1000 100) 0 (sample_line ''mov eax, ebx''))
        = [''mov'', ''eax,'']"
    by (simp add: row_bricks_def sample_env_def sample_line_def fixed_pitch_def
        LINE_SPLIT_RE_findall_def isspace_def py_strip_def code_right_def viewport_w_def
        code_left_def)
  have "length (row_bricks (sample_env 640 100) 0 (sample_line ''mov eax, ebx''))
        \<le> length (row_bricks (sample_env 1000 100) 0 (sample_line ''mov eax, ebx''))"
    using narrowing_never_adds_bricks [OF f w] by (rule conjunct1)
  then show ?thesis using f w a b by blast
qed

subsection \<open>Layout: the rectangle of a brick\<close>

lemma place_parts_brick:
  assumes "b \<in> set (place_parts e y_base info x parts)"
  shows "\<exists>k < length parts.
           label b = parts ! k \<and> py_strip (parts ! k) \<noteq> []
           \<and> rx (rect b) = of_int (x + (cursor_before e parts k - code_left))
           \<and> ry (rect b) = of_int (y_base - fm_ascent (fm e))
           \<and> rw (rect b) = of_int (max 6 (fm_horizontalAdvance (fm e) (parts ! k)))
           \<and> rh (rect b) = of_int (line_h e)
           \<and> x + (cursor_before e parts k - code_left)
                + max 1 (fm_horizontalAdvance (fm e) (parts ! k)) \<le> code_right e
           \<and> full_text b = li_full_text info \<and> line_no b = li_line_no info \<and> alive b"
  using assms
proof (induction parts arbitrary: x)
  case Nil
  then show ?case by simp
next
  case (Cons part rest)
  define part_w where "part_w = max 1 (fm_horizontalAdvance (fm e) part)"
  define new where "new =
     \<lparr>rect = \<lparr>rx = of_int x, ry = of_int (y_base - fm_ascent (fm e)),
              rw = of_int (max 6 part_w), rh = of_int (line_h e)\<rparr>,
      label = part, full_text = li_full_text info, line_no = li_line_no info,
      draw_x = x, draw_y = y_base, alive = True\<rparr>"
  have fits: "x + part_w \<le> code_right e"
    using Cons.prems by (auto simp: part_w_def Let_def split: if_splits)
  have mem: "(py_strip part \<noteq> [] \<and> b = new) \<or> b \<in> set (place_parts e y_base info (x + part_w) rest)"
    using Cons.prems by (auto simp: part_w_def new_def Let_def split: if_splits)
  have c0: "cursor_before e (part # rest) 0 - code_left = 0"
    by (simp add: cursor_before_def)
  have cS: "\<And>k. cursor_before e (part # rest) (Suc k) - code_left
                 = part_w + (cursor_before e rest k - code_left)"
    by (simp add: cursor_before_def part_w_def)
  from mem show ?case
  proof
    assume h: "py_strip part \<noteq> [] \<and> b = new"
    have "max (6::int) part_w = max 6 (fm_horizontalAdvance (fm e) part)"
      by (simp add: part_w_def)
    with h fits c0 have "0 < length (part # rest) \<and>
           label b = (part # rest) ! 0 \<and> py_strip ((part # rest) ! 0) \<noteq> []
           \<and> rx (rect b) = of_int (x + (cursor_before e (part # rest) 0 - code_left))
           \<and> ry (rect b) = of_int (y_base - fm_ascent (fm e))
           \<and> rw (rect b) = of_int (max 6 (fm_horizontalAdvance (fm e) ((part # rest) ! 0)))
           \<and> rh (rect b) = of_int (line_h e)
           \<and> x + (cursor_before e (part # rest) 0 - code_left)
                + max 1 (fm_horizontalAdvance (fm e) ((part # rest) ! 0)) \<le> code_right e
           \<and> full_text b = li_full_text info \<and> line_no b = li_line_no info \<and> alive b"
      by (simp add: new_def part_w_def)
    then show ?thesis by blast
  next
    assume "b \<in> set (place_parts e y_base info (x + part_w) rest)"
    from Cons.IH [OF this] obtain k where k: "k < length rest"
      "label b = rest ! k" "py_strip (rest ! k) \<noteq> []"
      "rx (rect b) = of_int (x + part_w + (cursor_before e rest k - code_left))"
      "ry (rect b) = of_int (y_base - fm_ascent (fm e))"
      "rw (rect b) = of_int (max 6 (fm_horizontalAdvance (fm e) (rest ! k)))"
      "rh (rect b) = of_int (line_h e)"
      "x + part_w + (cursor_before e rest k - code_left)
         + max 1 (fm_horizontalAdvance (fm e) (rest ! k)) \<le> code_right e"
      "full_text b = li_full_text info" "line_no b = li_line_no info" "alive b"
      by blast
    have "Suc k < length (part # rest) \<and>
           label b = (part # rest) ! Suc k \<and> py_strip ((part # rest) ! Suc k) \<noteq> []
           \<and> rx (rect b) = of_int (x + (cursor_before e (part # rest) (Suc k) - code_left))
           \<and> ry (rect b) = of_int (y_base - fm_ascent (fm e))
           \<and> rw (rect b) = of_int (max 6 (fm_horizontalAdvance (fm e) ((part # rest) ! Suc k)))
           \<and> rh (rect b) = of_int (line_h e)
           \<and> x + (cursor_before e (part # rest) (Suc k) - code_left)
                + max 1 (fm_horizontalAdvance (fm e) ((part # rest) ! Suc k)) \<le> code_right e
           \<and> full_text b = li_full_text info \<and> line_no b = li_line_no info \<and> alive b"
      using k by (simp add: cS add.assoc)
    then show ?thesis by blast
  qed
qed

lemma row_bricks_brick:
  assumes "b \<in> set (row_bricks e i info)"
  shows "\<exists>k < length (LINE_SPLIT_RE_findall (li_full_text info)).
           label b = LINE_SPLIT_RE_findall (li_full_text info) ! k
           \<and> py_strip (LINE_SPLIT_RE_findall (li_full_text info) ! k) \<noteq> []
           \<and> rx (rect b) = of_int (cursor_before e (LINE_SPLIT_RE_findall (li_full_text info)) k)
           \<and> ry (rect b) = of_int (code_top + int i * line_h e)
           \<and> rw (rect b) = of_int (max 6 (fm_horizontalAdvance (fm e)
                                (LINE_SPLIT_RE_findall (li_full_text info) ! k)))
           \<and> rh (rect b) = of_int (line_h e)
           \<and> cursor_before e (LINE_SPLIT_RE_findall (li_full_text info)) k
                + max 1 (fm_horizontalAdvance (fm e) (LINE_SPLIT_RE_findall (li_full_text info) ! k))
                \<le> code_right e
           \<and> full_text b = li_full_text info \<and> line_no b = li_line_no info \<and> alive b"
proof -
  have top: "y_base_of e i - fm_ascent (fm e) = code_top + int i * line_h e"
    by (simp add: y_base_of_def)
  from assms have "b \<in> set (place_parts e (y_base_of e i) info code_left
                       (LINE_SPLIT_RE_findall (li_full_text info)))"
    by (simp add: row_bricks_def)
  from place_parts_brick [OF this] show ?thesis
    unfolding top by simp
qed

text \<open>
  Claim C5, as the specification states it: the width of a brick is
  \<open>max(1, pixel width)\<close>, and a token wider than the viewport is still emitted. Both
  fail: a token of pixel width 4 gets a rectangle of width 6, and a token of pixel width
  1100 in a viewport of width 800 gets no brick.
\<close>

theorem emitted_brick_geometry_counterexample:
  "bricks (build_bricks (sample_env 800 2)
       ((sample_state 350 350 True False 3)\<lparr>brick_labels := [sample_line ''ab'']\<rparr>))
     = [\<lparr>rect = \<lparr>rx = 70, ry = 64, rw = 6, rh = 16\<rparr>, label = ''ab'', full_text = ''ab'',
          line_no = 1, draw_x = 70, draw_y = 75, alive = True\<rparr>]
   \<and> max 1 (fm_horizontalAdvance (fm (sample_env 800 2)) ''ab'') = 4
   \<and> bricks (build_bricks (sample_env 800 100)
       ((sample_state 350 350 True False 3)\<lparr>brick_labels := [sample_line ''sub_handler'']\<rparr>))
     = []
   \<and> fm_horizontalAdvance (fm (sample_env 800 100)) ''sub_handler'' = 1100
   \<and> viewport_w (sample_env 800 100) = 800"
  by (simp add: build_bricks_def max_visible_lines_def viewport_h_def
        row_bricks_def sample_env_def sample_line_def sample_state_def fixed_pitch_def
        LINE_SPLIT_RE_findall_def isspace_def py_strip_def code_right_def viewport_w_def
        code_left_def code_top_def y_base_of_def line_h_def enumerate_eq_zip)

text \<open>
  Claim C5, amended: every brick of the layout comes from a token \<open>k\<close> of a visible line
  \<open>i\<close>, the token is not whitespace, the rectangle has its left edge at the cursor
  before the token, its top at the top of row \<open>i\<close>, width \<open>max(6, pixel width)\<close> and the
  height of a row, and the token fits: the cursor plus \<open>max(1, pixel width)\<close> does not
  pass the right margin, the viewport width minus 18.
\<close>

theorem emitted_brick_geometry:
  assumes "b \<in> set (bricks (build_bricks e s))"
  shows "\<exists>i k. i < length (brick_labels s) \<and> int i < max_visible_lines e
           \<and> k < length (LINE_SPLIT_RE_findall (li_full_text (brick_labels s ! i)))
           \<and> label b = LINE_SPLIT_RE_findall (li_full_text (brick_labels s ! i)) ! k
           \<and> py_strip (label b) \<noteq> []
           \<and> rx (rect b) = of_int (cursor_before e
                  (LINE_SPLIT_RE_findall (li_full_text (brick_labels s ! i))) k)
           \<and> ry (rect b) = of_int (code_top + int i * line_h e)
           \<and> rw (rect b) = of_int (max 6 (fm_horizontalAdvance (fm e) (label b)))
           \<and> rh (rect b) = of_int (line_h e)
           \<and> cursor_before e (LINE_SPLIT_RE_findall (li_full_text (brick_labels s ! i))) k
                + max 1 (fm_horizontalAdvance (fm e) (label b)) \<le> viewport_w e - 18
           \<and> full_text b = li_full_text (brick_labels s ! i)
           \<and> line_no b = li_line_no (brick_labels s ! i) \<and> alive b"
proof -
  define n where "n = nat (max_visible_lines e)"
  from assms obtain i info where
    row: "(i, info) \<in> set (enumerate 0 (take n (brick_labels s)))"
    and b: "b \<in> set (row_bricks e i info)"
    by (auto simp: build_bricks_def Let_def n_def)
  from row have i: "i < length (brick_labels s)" "i < n" and info: "info = brick_labels s ! i"
    by (auto simp: in_set_enumerate_eq)
  from i(2) have vis: "int i < max_visible_lines e" by (simp add: n_def)
  from row_bricks_brick [OF b] obtain k where
    "k < length (LINE_SPLIT_RE_findall (li_full_text info))"
    "label b = LINE_SPLIT_RE_findall (li_full_text info) ! k"
    "py_strip (LINE_SPLIT_RE_findall (li_full_text info) ! k) \<noteq> []"
    "rx (rect b) = of_int (cursor_before e (LINE_SPLIT_RE_findall (li_full_text info)) k)"
    "ry (rect b) = of_int (code_top + int i * line_h e)"
    "rw (rect b) = of_int (max 6 (fm_horizontalAdvance (fm e)
                                (LINE_SPLIT_RE_findall (li_full_text info) ! k)))"
    "rh (rect b) = of_int (line_h e)"
    "cursor_before e (LINE_SPLIT_RE_findall (li_full_text info)) k
       + max 1 (fm_horizontalAdvance (fm e) (LINE_SPLIT_RE_findall (li_full_text info) ! k))
       \<le> code_right e"
    "full_text b = li_full_text info" "line_no b = li_line_no info" "alive b"
    by blast
  then show ?thesis
    using i(1) vis unfolding info code_right_def by (intro exI [of _ i] exI [of _ k]) simp
qed


theorem emitted_brick_geometry_witness:
  "bricks (build_bricks (sample_env 800 2)
       ((sample_state 350 350 True False 3)\<lparr>brick_labels := [sample_line ''ab'']\<rparr>))
     = [\<lparr>rect = \<lparr>rx = 70, ry = 64, rw = 6, rh = 16\<rparr>, label = ''ab'', full_text = ''ab'',
          line_no = 1, draw_x = 70, draw_y = 75, alive = True\<rparr>]
   \<and> (\<exists>b. b \<in> set (bricks (build_bricks (sample_env 800 2)
            ((sample_state 350 350 True False 3)\<lparr>brick_labels := [sample_line ''ab'']\<rparr>)))
         \<and> rw (rect b) = of_int (max 6 (fm_horizontalAdvance (fm (sample_env 800 2)) (label b)))
         \<and> rh (rect b) = of_int (line_h (sample_env 800 2)) \<and> alive b)"
proof -
  define b0 where "b0 =
     \<lparr>rect = \<lparr>rx = 70, ry = 64, rw = 6, rh = 16\<rparr>, label = ''ab'', full_text = ''ab'',
      line_no = 1, draw_x = 70, draw_y = 75, alive = True\<rparr>"
  have v: "bricks (build_bricks (sample_env 800 2)
       ((sample_state 350 350 True False 3)\<lparr>brick_labels := [sample_line ''ab'']\<rparr>)) = [b0]"
    unfolding b0_def
    by (simp add: build_bricks_def max_visible_lines_def viewport_h_def
        row_bricks_def sample_env_def sample_line_def sample_state_def fixed_pitch_def
        LINE_SPLIT_RE_findall_def isspace_def py_strip_def code_right_def viewport_w_def
        code_left_def code_top_def y_base_of_def line_h_def enumerate_eq_zip)
  then have m: "b0 \<in> set (bricks (build_bricks (sample_env 800 2)
         ((sample_state 350 350 True False 3)\<lparr>brick_labels := [sample_line ''ab'']\<rparr>)))"
    by simp
  have "rw (rect b0) = of_int (max 6 (fm_horizontalAdvance (fm (sample_env 800 2)) (label b0)))
         \<and> rh (rect b0) = of_int (line_h (sample_env 800 2)) \<and> alive b0"
    using emitted_brick_geometry [OF m] by blast
  then show ?thesis using v m unfolding b0_def by blast
qed

subsection \<open>The tick: the paddle\<close>

lemma extract_never_raises:
  "\<exists>labels. extract_line_blocks_from_current_context e n = Inr labels"
  by (simp add: extract_line_blocks_from_current_context_def rotate_items_eq_law
      split: prod.splits)

lemma reload_bricks_result:
  "\<exists>labels. reload_bricks e s
      = Inr (reset_ball_on_paddle e (build_bricks e (s\<lparr>brick_labels := labels\<rparr>)))"
proof -
  obtain labels where "extract_line_blocks_from_current_context e MAX_BRICK_LINES = Inr labels"
    using extract_never_raises by blast
  then show ?thesis by (auto simp: reload_bricks_def)
qed

lemma move_paddle_eq:
  "move_paddle e s =
     s\<lparr>paddle_x :=
         max 10 (min (paddle_x s - (if left_pressed s then paddle_speed else 0)
                        + (if right_pressed s then paddle_speed else 0))
                     (of_int (viewport_w e) - paddle_w - 10))\<rparr>"
  by (simp add: move_paddle_def Let_def)

lemma viewport_w_ge: "640 \<le> viewport_w e"
  by (simp add: viewport_w_def)

lemma move_paddle_in_bounds: "paddle_in_bounds e (move_paddle e s)"
proof -
  have "(640::real) \<le> of_int (viewport_w e)"
    using viewport_w_ge [of e] by linarith
  then show ?thesis
    by (simp add: paddle_in_bounds_def move_paddle_eq paddle_w_def)
qed

lemma reset_in_bounds: "paddle_in_bounds e (reset_ball_on_paddle e s)"
proof -
  have "(640::real) \<le> of_int (viewport_w e)"
    using viewport_w_ge [of e] by linarith
  moreover have "(of_int (width e) :: real) \<le> of_int (viewport_w e)"
    by (simp add: viewport_w_def)
  ultimately show ?thesis
    by (simp add: paddle_in_bounds_def reset_ball_on_paddle_def Let_def paddle_w_def)
qed

lemma integrate_and_walls_paddle [simp]:
  "paddle_x (integrate_and_walls e s) = paddle_x s"
  by (simp add: integrate_and_walls_def Let_def)

lemma paddle_collision_paddle [simp]:
  "paddle_x (paddle_collision e s) = paddle_x s"
  by (simp add: paddle_collision_def Let_def)

lemma brick_collision_paddle [simp]:
  "paddle_x (brick_collision e s) = paddle_x s"
  by (simp add: brick_collision_def Let_def split: option.splits)

lemma level_clear_in_bounds:
  assumes "paddle_in_bounds e s"
  shows "\<exists>s'. level_clear e s = Inr s' \<and> paddle_in_bounds e s'"
proof (cases "bricks s \<noteq> [] \<and> \<not> list_ex alive (bricks s)")
  case True
  obtain labels where "reload_bricks e s
      = Inr (reset_ball_on_paddle e (build_bricks e (s\<lparr>brick_labels := labels\<rparr>)))"
    using reload_bricks_result by blast
  moreover have "level_clear e s = reload_bricks e s"
    unfolding level_clear_def using True by (rule if_P)
  ultimately show ?thesis by (simp add: reset_in_bounds)
next
  case False
  then have "level_clear e s = Inr s" unfolding level_clear_def by (rule if_not_P)
  then show ?thesis using assms by simp
qed

lemma bottom_fall_in_bounds:
  assumes "paddle_in_bounds e s"
  shows "paddle_in_bounds e (bottom_fall e s)"
proof -
  have "paddle_in_bounds e (s\<lparr>lives := lives s - 1, game_over := True, launched := False\<rparr>)"
    using assms by (simp add: paddle_in_bounds_def)
  then show ?thesis
    using assms by (simp add: bottom_fall_def Let_def reset_in_bounds)
qed

lemma before_bottom_check_in_bounds:
  "\<exists>s'. before_bottom_check e s = Inr s' \<and> paddle_in_bounds e s'"
proof -
  have "paddle_in_bounds e (brick_collision e (at_brick_scan e s))"
    using move_paddle_in_bounds [of e s]
    by (simp add: paddle_in_bounds_def at_brick_scan_def)
  from level_clear_in_bounds [OF this] show ?thesis
    by (simp add: before_bottom_check_def)
qed

lemma tick_in_bounds: "\<exists>s'. tick e s = Inr s' \<and> paddle_in_bounds e s'"
proof -
  let ?s1 = "move_paddle e s"
  have b1: "paddle_in_bounds e ?s1" by (rule move_paddle_in_bounds)
  consider (wait) "\<not> launched ?s1 \<and> \<not> game_over ?s1" | (over) "game_over ?s1"
    | (play) "launched ?s1 \<and> \<not> game_over ?s1" by blast
  then show ?thesis
  proof cases
    case wait
    have "paddle_in_bounds e (?s1\<lparr>ball_x := paddle_x ?s1 + paddle_w / 2,
                                    ball_y := of_int (viewport_h e) - 42\<rparr>)"
      using b1 by (simp add: paddle_in_bounds_def)
    then show ?thesis using wait by (simp add: tick_def Let_def)
  next
    case over
    then show ?thesis using b1 by (simp add: tick_def Let_def)
  next
    case play
    obtain s2 where s2: "before_bottom_check e s = Inr s2" "paddle_in_bounds e s2"
      using before_bottom_check_in_bounds by blast
    then show ?thesis using play bottom_fall_in_bounds [OF s2(2)]
      by (simp add: tick_def Let_def)
  qed
qed

lemma run_ticks_in_bounds:
  assumes "ticks \<noteq> []"
  shows "\<exists>s'. run_ticks ticks s = Inr s' \<and> paddle_in_bounds (fst (last ticks)) s'"
  using assms
proof (induction ticks arbitrary: s)
  case Nil
  then show ?case by simp
next
  case (Cons t rest)
  obtain e l r where t: "t = (e, l, r)" by (cases t)
  obtain s1 where s1: "tick e (s\<lparr>left_pressed := l, right_pressed := r\<rparr>) = Inr s1"
    "paddle_in_bounds e s1"
    using tick_in_bounds by blast
  show ?case
  proof (cases "rest = []")
    case True
    then show ?thesis using s1 t by simp
  next
    case False
    from Cons.IH [OF False, of s1] show ?thesis using s1 t False by simp
  qed
qed

text \<open>
  Claim C4: after every non-empty run of ticks, whatever the input flags and the sizes of
  the widget at each tick, the run has not raised and the paddle's \<open>x\<close> lies between
  the margin 10 and the viewport width of the last tick minus the paddle width minus 10.
  A single tick, the paddle move of lines 346 to 350 and \<^verbatim>\<open>_reset_ball_on_paddle\<close> each
  establish these bounds from any state. The viewport width is the \<open>w\<close> of \<^verbatim>\<open>_tick\<close>,
  \<open>max(640, width())\<close>, which is the widget's width from 640 on.
\<close>

theorem paddle_stays_clamped:
  "(ticks \<noteq> [] \<longrightarrow>
      (\<exists>s'. run_ticks ticks s = Inr s' \<and> 10 \<le> paddle_x s'
          \<and> paddle_x s' \<le> of_int (viewport_w (fst (last ticks))) - paddle_w - 10))
   \<and> (\<exists>s'. tick e s = Inr s' \<and> 10 \<le> paddle_x s'
          \<and> paddle_x s' \<le> of_int (viewport_w e) - paddle_w - 10)
   \<and> 10 \<le> paddle_x (move_paddle e s)
   \<and> paddle_x (move_paddle e s) \<le> of_int (viewport_w e) - paddle_w - 10
   \<and> 10 \<le> paddle_x (reset_ball_on_paddle e s)
   \<and> paddle_x (reset_ball_on_paddle e s) \<le> of_int (viewport_w e) - paddle_w - 10
   \<and> (640 \<le> width e \<longrightarrow> viewport_w e = width e)"
  using run_ticks_in_bounds [of ticks s] tick_in_bounds [of e s]
    move_paddle_in_bounds [of e s] reset_in_bounds [of e s]
  by (simp add: paddle_in_bounds_def viewport_w_def)

theorem paddle_stays_clamped_witness:
  "[(sample_env 800 7, False, True), (sample_env 800 7, False, True)] \<noteq> []
   \<and> (\<exists>s'. run_ticks [(sample_env 800 7, False, True), (sample_env 800 7, False, True)]
              ((sample_state 350 350 False False 3)\<lparr>paddle_x := 655\<rparr>) = Inr s'
          \<and> paddle_x s' = 660
          \<and> 10 \<le> paddle_x s'
          \<and> paddle_x s' \<le> of_int (viewport_w (sample_env 800 7)) - paddle_w - 10)
   \<and> of_int (viewport_w (sample_env 800 7)) - paddle_w - 10 = 660"
proof -
  let ?T = "[(sample_env 800 7, False, True), (sample_env 800 7, False, True)]"
  let ?S = "(sample_state 350 350 False False 3)\<lparr>paddle_x := 655\<rparr>"
  have ne: "?T \<noteq> []" by simp
  have v: "\<exists>s'. run_ticks ?T ?S = Inr s' \<and> paddle_x s' = 660"
    by (simp add: tick_def move_paddle_def Let_def sample_state_def sample_env_def
        viewport_w_def viewport_h_def paddle_w_def paddle_speed_def)
  have w: "of_int (viewport_w (sample_env 800 7)) - paddle_w - 10 = 660"
    by (simp add: sample_env_def viewport_w_def paddle_w_def)
  from paddle_stays_clamped [of ?T ?S] ne
  have "\<exists>s'. run_ticks ?T ?S = Inr s' \<and> 10 \<le> paddle_x s'
          \<and> paddle_x s' \<le> of_int (viewport_w (fst (last ?T))) - paddle_w - 10"
    by blast
  then have "\<exists>s'. run_ticks ?T ?S = Inr s' \<and> 10 \<le> paddle_x s'
          \<and> paddle_x s' \<le> of_int (viewport_w (sample_env 800 7)) - paddle_w - 10"
    by simp
  with v have "\<exists>s'. run_ticks ?T ?S = Inr s' \<and> paddle_x s' = 660 \<and> 10 \<le> paddle_x s'
          \<and> paddle_x s' \<le> of_int (viewport_w (sample_env 800 7)) - paddle_w - 10"
    by auto
  then show ?thesis using ne w by blast
qed

subsection \<open>The tick: game over\<close>

lemma tick_game_over:
  assumes "game_over s"
  shows "tick e s = Inr (move_paddle e s)"
proof -
  have "game_over (move_paddle e s)" using assms by (simp add: move_paddle_eq)
  then show ?thesis by (simp add: tick_def Let_def)
qed

text \<open>
  Claim C7, as the specification states it: a tick in the game-over state leaves the
  paddle where it is. It fails: the paddle input of lines 346 to 350 runs before the
  game-over test, so with the left key held the paddle moves from 300 to 291.
\<close>

theorem game_over_tick_counterexample:
  "game_over (sample_state 350 350 False True 0)
   \<and> paddle_x (sample_state 350 350 False True 0) = 300
   \<and> tick (sample_env 800 7) (sample_state 350 350 False True 0)
       = Inr ((sample_state 350 350 False True 0)\<lparr>paddle_x := 291\<rparr>)"
  by (simp add: tick_def move_paddle_def Let_def sample_state_def sample_env_def
      viewport_w_def paddle_w_def paddle_speed_def)

text \<open>
  Claim C7, amended: in the game-over state a tick returns without raising and changes
  nothing but the paddle's \<open>x\<close>, which follows the input flags and is clamped; ball
  position and velocity, the bricks, the score and the lives are unchanged and the game
  stays over.
\<close>

theorem game_over_tick_moves_only_paddle:
  assumes "game_over s"
  shows "\<exists>s'. tick e s = Inr s'
           \<and> s' = s\<lparr>paddle_x := paddle_x s'\<rparr>
           \<and> paddle_x s' =
               max 10 (min (paddle_x s - (if left_pressed s then paddle_speed else 0)
                                       + (if right_pressed s then paddle_speed else 0))
                           (of_int (viewport_w e) - paddle_w - 10))
           \<and> ball_x s' = ball_x s \<and> ball_y s' = ball_y s
           \<and> ball_vx s' = ball_vx s \<and> ball_vy s' = ball_vy s
           \<and> bricks s' = bricks s \<and> score s' = score s \<and> lives s' = lives s
           \<and> game_over s' \<and> launched s' = launched s"
  using assms tick_game_over [OF assms, of e] by (simp add: move_paddle_eq)

theorem game_over_tick_moves_only_paddle_witness:
  "game_over (sample_state 350 350 False True 0)
   \<and> (\<exists>s'. tick (sample_env 800 7) (sample_state 350 350 False True 0) = Inr s'
         \<and> paddle_x s' = 291 \<and> ball_x s' = 350 \<and> ball_y s' = 350
         \<and> bricks s' = bricks (sample_state 350 350 False True 0)
         \<and> score s' = 0 \<and> lives s' = 0 \<and> game_over s')"
proof -
  let ?S = "sample_state 350 350 False True 0"
  have g: "game_over ?S" by (simp add: sample_state_def)
  from game_over_tick_moves_only_paddle [OF g, of "sample_env 800 7"]
  obtain s' where s': "tick (sample_env 800 7) ?S = Inr s'"
    "paddle_x s' =
               max 10 (min (paddle_x ?S - (if left_pressed ?S then paddle_speed else 0)
                                       + (if right_pressed ?S then paddle_speed else 0))
                           (of_int (viewport_w (sample_env 800 7)) - paddle_w - 10))"
    "ball_x s' = ball_x ?S" "ball_y s' = ball_y ?S" "bricks s' = bricks ?S"
    "score s' = score ?S" "lives s' = lives ?S" "game_over s'"
    by blast
  have "paddle_x s' = 291"
    unfolding s'(2)
    by (simp add: sample_state_def sample_env_def viewport_w_def paddle_w_def paddle_speed_def)
  moreover have "ball_x s' = 350" "ball_y s' = 350" "score s' = 0" "lives s' = 0"
    using s'(3,4,6,7) by (simp_all add: sample_state_def)
  ultimately show ?thesis using g s'(1,5,8) by blast
qed

subsection \<open>The tick: losing a life\<close>

lemma move_paddle_fields [simp]:
  "bricks (move_paddle e s) = bricks s"
  "score (move_paddle e s) = score s"
  "lives (move_paddle e s) = lives s"
  "launched (move_paddle e s) = launched s"
  "game_over (move_paddle e s) = game_over s"
  by (simp_all add: move_paddle_eq)

lemma integrate_and_walls_fields [simp]:
  "bricks (integrate_and_walls e s) = bricks s"
  "score (integrate_and_walls e s) = score s"
  "lives (integrate_and_walls e s) = lives s"
  "launched (integrate_and_walls e s) = launched s"
  "game_over (integrate_and_walls e s) = game_over s"
  by (simp_all add: integrate_and_walls_def Let_def)

lemma paddle_collision_fields [simp]:
  "bricks (paddle_collision e s) = bricks s"
  "score (paddle_collision e s) = score s"
  "lives (paddle_collision e s) = lives s"
  "launched (paddle_collision e s) = launched s"
  "game_over (paddle_collision e s) = game_over s"
  by (simp_all add: paddle_collision_def Let_def)

lemma at_brick_scan_fields [simp]:
  "bricks (at_brick_scan e s) = bricks s"
  "score (at_brick_scan e s) = score s"
  "lives (at_brick_scan e s) = lives s"
  "launched (at_brick_scan e s) = launched s"
  "game_over (at_brick_scan e s) = game_over s"
  by (simp_all add: at_brick_scan_def)

lemma brick_collision_fields [simp]:
  "lives (brick_collision e s) = lives s"
  "launched (brick_collision e s) = launched s"
  "game_over (brick_collision e s) = game_over s"
  by (simp_all add: brick_collision_def Let_def split: option.splits)

lemma build_bricks_fields [simp]:
  "lives (build_bricks e s) = lives s"
  "score (build_bricks e s) = score s"
  "game_over (build_bricks e s) = game_over s"
  by (simp_all add: build_bricks_def Let_def)

lemma reset_fields [simp]:
  "lives (reset_ball_on_paddle e s) = lives s"
  "score (reset_ball_on_paddle e s) = score s"
  "game_over (reset_ball_on_paddle e s) = game_over s"
  "bricks (reset_ball_on_paddle e s) = bricks s"
  "launched (reset_ball_on_paddle e s) = False"
  "ball_vx (reset_ball_on_paddle e s) = 3.8"
  "ball_vy (reset_ball_on_paddle e s) = - 4.6"
  "ball_x (reset_ball_on_paddle e s) = paddle_x (reset_ball_on_paddle e s) + paddle_w / 2"
  "ball_y (reset_ball_on_paddle e s) = of_int (max 300 (height e)) - 42"
  by (simp_all add: reset_ball_on_paddle_def Let_def)

lemma place_parts_alive:
  assumes "b \<in> set (place_parts e y_base info x parts)"
  shows "alive b"
  using assms
  by (induction parts arbitrary: x) (auto simp: Let_def split: if_splits)

lemma build_bricks_alive:
  assumes "b \<in> set (bricks (build_bricks e s))"
  shows "alive b"
  using assms
  by (auto simp: build_bricks_def Let_def row_bricks_def dest: place_parts_alive)

lemma level_clear_cases:
  "\<exists>s'. level_clear e s = Inr s' \<and> lives s' = lives s \<and> score s' = score s
        \<and> game_over s' = game_over s
        \<and> (s' = s \<or> (\<forall>b \<in> set (bricks s'). alive b))"
proof (cases "bricks s \<noteq> [] \<and> \<not> list_ex alive (bricks s)")
  case True
  obtain labels where r: "reload_bricks e s
      = Inr (reset_ball_on_paddle e (build_bricks e (s\<lparr>brick_labels := labels\<rparr>)))"
    using reload_bricks_result by blast
  have "level_clear e s = reload_bricks e s"
    unfolding level_clear_def using True by (rule if_P)
  with r show ?thesis by (auto dest: build_bricks_alive)
next
  case False
  then have "level_clear e s = Inr s" unfolding level_clear_def by (rule if_not_P)
  then show ?thesis by simp
qed

lemma bottom_fall_fields [simp]:
  "score (bottom_fall e s) = score s"
  "bricks (bottom_fall e s) = bricks s"
  by (simp_all add: bottom_fall_def Let_def)

lemma tick_in_play:
  assumes "launched s" and "\<not> game_over s"
  shows "tick e s = (case before_bottom_check e s of
                       Inl err \<Rightarrow> Inl err | Inr s2 \<Rightarrow> Inr (bottom_fall e s2))"
  using assms by (simp add: tick_def Let_def move_paddle_eq)

lemma before_bottom_check_fields:
  assumes "before_bottom_check e s = Inr m"
  shows "lives m = lives s \<and> game_over m = game_over s"
  using assms level_clear_cases [of e "brick_collision e (at_brick_scan e s)"]
  by (auto simp: before_bottom_check_def)

text \<open>
  Claim C2: take a tick that starts in play (launched, not game over) and in which the
  ball is below the bottom edge when line 393 tests it (the state \<open>m\<close> reached there has
  \<open>ball_y - ball_r > h\<close>). With one life before the tick, the tick ends with no lives and
  the game over. With two or more lives, it ends with one life less, not launched and not
  game over (waiting for launch), the ball centred on the paddle and above it, and the
  velocity reset to \<open>(3.8, -4.6)\<close>.
\<close>

theorem life_loss_transition:
  assumes "launched s" and "\<not> game_over s"
    and "before_bottom_check e s = Inr m"
    and "ball_y m - ball_r > of_int (viewport_h e)"
  shows "(lives s = 1 \<longrightarrow>
            (\<exists>s'. tick e s = Inr s' \<and> lives s' = 0 \<and> game_over s'))
         \<and> (lives s \<ge> 2 \<longrightarrow>
            (\<exists>s'. tick e s = Inr s' \<and> lives s' = lives s - 1
                \<and> \<not> launched s' \<and> \<not> game_over s'
                \<and> ball_x s' = paddle_x s' + paddle_w / 2
                \<and> ball_y s' = of_int (max 300 (height e)) - 42
                \<and> ball_y s' + ball_r < of_int (viewport_h e) - 30
                \<and> ball_vx s' = 3.8 \<and> ball_vy s' = - 4.6))"
proof -
  have t: "tick e s = Inr (bottom_fall e m)"
    using tick_in_play [OF assms(1,2), of e] assms(3) by simp
  have f: "lives m = lives s" "\<not> game_over m"
    using before_bottom_check_fields [OF assms(3)] assms(2) by simp_all
  have one: "lives s = 1 \<Longrightarrow> lives (bottom_fall e m) = 0 \<and> game_over (bottom_fall e m)"
    using assms(4) f by (simp add: bottom_fall_def Let_def)
  have above: "of_int (max 300 (height e)) - 42 + ball_r < (of_int (viewport_h e) :: real) - 30"
  proof -
    have "max 300 (height e) \<le> viewport_h e" by (simp add: viewport_h_def)
    then have "(of_int (max 300 (height e)) :: real) \<le> of_int (viewport_h e)"
      by (simp only: of_int_le_iff)
    then show ?thesis unfolding ball_r_def by linarith
  qed
  have more: "lives s \<ge> 2 \<Longrightarrow> bottom_fall e m = reset_ball_on_paddle e (m\<lparr>lives := lives m - 1\<rparr>)"
    using assms(4) f by (simp add: bottom_fall_def Let_def)
  show ?thesis
  proof (intro conjI impI)
    assume "lives s = 1"
    then show "\<exists>s'. tick e s = Inr s' \<and> lives s' = 0 \<and> game_over s'"
      using t one by blast
  next
    assume l: "lives s \<ge> 2"
    have "lives (bottom_fall e m) = lives s - 1 \<and> \<not> launched (bottom_fall e m)
        \<and> \<not> game_over (bottom_fall e m)
        \<and> ball_x (bottom_fall e m) = paddle_x (bottom_fall e m) + paddle_w / 2
        \<and> ball_y (bottom_fall e m) = of_int (max 300 (height e)) - 42
        \<and> ball_y (bottom_fall e m) + ball_r < of_int (viewport_h e) - 30
        \<and> ball_vx (bottom_fall e m) = 3.8 \<and> ball_vy (bottom_fall e m) = - 4.6"
      unfolding more [OF l] using f above by simp
    then show "\<exists>s'. tick e s = Inr s' \<and> lives s' = lives s - 1
                \<and> \<not> launched s' \<and> \<not> game_over s'
                \<and> ball_x s' = paddle_x s' + paddle_w / 2
                \<and> ball_y s' = of_int (max 300 (height e)) - 42
                \<and> ball_y s' + ball_r < of_int (viewport_h e) - 30
                \<and> ball_vx s' = 3.8 \<and> ball_vy s' = - 4.6"
      using t by blast
  qed
qed

lemma falling_ball:
  "\<exists>m. before_bottom_check (sample_env 800 7) (sample_state 350 530 True False lv) = Inr m
       \<and> ball_y m - ball_r > of_int (viewport_h (sample_env 800 7))"
  by (simp add: before_bottom_check_def level_clear_def brick_collision_def at_brick_scan_def
      paddle_collision_def integrate_and_walls_def move_paddle_def ball_rect_def Let_def
      sample_state_def sample_env_def sample_brick_def overlaps_def
      viewport_w_def viewport_h_def paddle_w_def paddle_h_def paddle_speed_def ball_r_def)

theorem life_loss_transition_witness:
  "launched (sample_state 350 530 True False 2)
   \<and> \<not> game_over (sample_state 350 530 True False 2)
   \<and> lives (sample_state 350 530 True False 2) = 2
   \<and> (\<exists>s'. tick (sample_env 800 7) (sample_state 350 530 True False 2) = Inr s'
          \<and> lives s' = 1 \<and> \<not> launched s' \<and> \<not> game_over s'
          \<and> ball_y s' = 478 \<and> ball_vx s' = 3.8 \<and> ball_vy s' = - 4.6)
   \<and> lives (sample_state 350 530 True False 1) = 1
   \<and> (\<exists>s'. tick (sample_env 800 7) (sample_state 350 530 True False 1) = Inr s'
          \<and> lives s' = 0 \<and> game_over s')"
proof -
  let ?E = "sample_env 800 7"
  have st: "launched (sample_state 350 530 True False lv)"
    "\<not> game_over (sample_state 350 530 True False lv)"
    "lives (sample_state 350 530 True False lv) = lv" for lv
    by (simp_all add: sample_state_def)
  obtain m2 where m2: "before_bottom_check ?E (sample_state 350 530 True False 2) = Inr m2"
    "ball_y m2 - ball_r > of_int (viewport_h ?E)"
    using falling_ball [of 2] by blast
  obtain m1 where m1: "before_bottom_check ?E (sample_state 350 530 True False 1) = Inr m1"
    "ball_y m1 - ball_r > of_int (viewport_h ?E)"
    using falling_ball [of 1] by blast
  have h: "of_int (max 300 (height ?E)) - 42 = (478::real)"
    by (simp add: sample_env_def)
  have two: "\<exists>s'. tick ?E (sample_state 350 530 True False 2) = Inr s'
          \<and> lives s' = 1 \<and> \<not> launched s' \<and> \<not> game_over s'
          \<and> ball_y s' = 478 \<and> ball_vx s' = 3.8 \<and> ball_vy s' = - 4.6"
    using life_loss_transition [OF st(1) st(2) m2] st(3) [of 2] h by auto
  have one: "\<exists>s'. tick ?E (sample_state 350 530 True False 1) = Inr s'
          \<and> lives s' = 0 \<and> game_over s'"
    using life_loss_transition [OF st(1) st(2) m1] st(3) [of 1] by auto
  show ?thesis using st two one by blast
qed

subsection \<open>The tick: the bricks\<close>

lemma first_hit_None:
  "first_hit e r bs = None \<longleftrightarrow> (\<forall>b \<in> set bs. \<not> (alive b \<and> intersects e r (rect b)))"
  by (induction bs) auto

lemma first_hit_Some:
  assumes "first_hit e r bs = Some i"
  shows "i < length bs \<and> alive (bs ! i) \<and> intersects e r (rect (bs ! i))
           \<and> (\<forall>j < i. \<not> (alive (bs ! j) \<and> intersects e r (rect (bs ! j))))"
  using assms
proof (induction bs arbitrary: i)
  case Nil
  then show ?case by simp
next
  case (Cons a bs)
  show ?case
  proof (cases "alive a \<and> intersects e r (rect a)")
    case True
    with Cons.prems have "i = 0" by simp
    with True show ?thesis by simp
  next
    case False
    with Cons.prems obtain k where k: "first_hit e r bs = Some k" "i = Suc k"
      by auto
    from Cons.IH [OF k(1)] have ih: "k < length bs" "alive (bs ! k)"
      "intersects e r (rect (bs ! k))"
      "\<forall>j < k. \<not> (alive (bs ! j) \<and> intersects e r (rect (bs ! j)))"
      by simp_all
    have "\<forall>j < Suc k. \<not> (alive ((a # bs) ! j) \<and> intersects e r (rect ((a # bs) ! j)))"
    proof (intro allI impI)
      fix j assume "j < Suc k"
      then show "\<not> (alive ((a # bs) ! j) \<and> intersects e r (rect ((a # bs) ! j)))"
        using False ih(4) by (cases j) simp_all
    qed
    then show ?thesis using ih k(2) by simp
  qed
qed

lemma killed_same: "killed bs bs = {}"
  by (simp add: killed_def)

lemma killed_fresh:
  assumes "\<forall>b \<in> set new. alive b"
  shows "killed old new = {}"
  using assms by (auto simp: killed_def)

lemma killed_update:
  assumes "i < length bs" and "alive (bs ! i)"
  shows "killed bs (bs[i := (bs ! i)\<lparr>alive := False\<rparr>]) = {i}"
  using assms by (auto simp: killed_def nth_list_update)

lemma brick_collision_miss:
  assumes "first_hit e (ball_rect p) (bricks p) = None"
  shows "brick_collision e p = p"
  using assms by (simp add: brick_collision_def Let_def)

lemma brick_collision_hit:
  assumes "first_hit e (ball_rect p) (bricks p) = Some i"
  shows "bricks (brick_collision e p) = (bricks p)[i := (bricks p ! i)\<lparr>alive := False\<rparr>]"
    and "score (brick_collision e p) = score p + 10"
    and "ball_vy (brick_collision e p) = - ball_vy p"
  using assms by (simp_all add: brick_collision_def Let_def)

lemma tick_not_in_play:
  assumes "\<not> (launched s \<and> \<not> game_over s)"
  shows "\<exists>s'. tick e s = Inr s' \<and> bricks s' = bricks s \<and> score s' = score s"
  using assms by (auto simp: tick_def Let_def)

lemma tick_in_play_bricks:
  assumes "launched s" and "\<not> game_over s"
  shows "\<exists>s'. tick e s = Inr s'
           \<and> score s' = score (brick_collision e (at_brick_scan e s))
           \<and> (bricks s' = bricks (brick_collision e (at_brick_scan e s))
                \<or> (\<forall>b \<in> set (bricks s'). alive b))"
proof -
  let ?c = "brick_collision e (at_brick_scan e s)"
  obtain m where m: "level_clear e ?c = Inr m" "score m = score ?c"
    "m = ?c \<or> (\<forall>b \<in> set (bricks m). alive b)"
    using level_clear_cases [of e ?c] by blast
  have "tick e s = Inr (bottom_fall e m)"
    using tick_in_play [OF assms, of e] m(1) by (simp add: before_bottom_check_def)
  moreover have "bricks (bottom_fall e m) = bricks ?c \<or> (\<forall>b \<in> set (bricks (bottom_fall e m)). alive b)"
    using m(3) by auto
  ultimately show ?thesis using m(2) by simp
qed

text \<open>
  Claim C3: every tick returns without raising and at most one position of the brick list
  goes from alive to dead. In a tick that starts in play, if no alive brick intersects
  the ball's rectangle at the scan of line 383, the scan changes nothing and the score is
  kept; otherwise the first such brick \<open>i\<close> in list order is the one marked dead and no
  other brick changes, the score grows by exactly 10 and the scan negates \<open>ball_vy\<close>.
  After the scan the list is only ever replaced as a whole by a reload, whose bricks are
  all alive. Outside play a tick leaves bricks and score as they are.
\<close>

theorem one_brick_per_tick:
  "(\<exists>s'. tick e s = Inr s' \<and> card (killed (bricks s) (bricks s')) \<le> 1)
   \<and> (launched s \<and> \<not> game_over s \<longrightarrow>
        (\<exists>s'. tick e s = Inr s' \<and>
           (case first_hit e (ball_rect (at_brick_scan e s)) (bricks s) of
              None \<Rightarrow>
                (\<forall>b \<in> set (bricks s).
                    \<not> (alive b \<and> intersects e (ball_rect (at_brick_scan e s)) (rect b)))
                \<and> brick_collision e (at_brick_scan e s) = at_brick_scan e s
                \<and> score s' = score s
                \<and> (bricks s' = bricks s \<or> (\<forall>b \<in> set (bricks s'). alive b))
            | Some i \<Rightarrow>
                i < length (bricks s) \<and> alive (bricks s ! i)
                \<and> intersects e (ball_rect (at_brick_scan e s)) (rect (bricks s ! i))
                \<and> (\<forall>j < i. \<not> (alive (bricks s ! j)
                       \<and> intersects e (ball_rect (at_brick_scan e s)) (rect (bricks s ! j))))
                \<and> bricks (brick_collision e (at_brick_scan e s))
                     = (bricks s)[i := (bricks s ! i)\<lparr>alive := False\<rparr>]
                \<and> killed (bricks s) (bricks (brick_collision e (at_brick_scan e s))) = {i}
                \<and> ball_vy (brick_collision e (at_brick_scan e s))
                     = - ball_vy (at_brick_scan e s)
                \<and> score s' = score s + 10
                \<and> (bricks s' = (bricks s)[i := (bricks s ! i)\<lparr>alive := False\<rparr>]
                     \<or> (\<forall>b \<in> set (bricks s'). alive b)))))
   \<and> (\<not> (launched s \<and> \<not> game_over s) \<longrightarrow>
        (\<exists>s'. tick e s = Inr s' \<and> bricks s' = bricks s \<and> score s' = score s))"
proof -
  let ?p = "at_brick_scan e s"
  let ?c = "brick_collision e ?p"
  have bp: "bricks ?p = bricks s" and sp: "score ?p = score s" by simp_all
  have play: "\<exists>s'. tick e s = Inr s' \<and>
           (case first_hit e (ball_rect ?p) (bricks s) of
              None \<Rightarrow>
                (\<forall>b \<in> set (bricks s). \<not> (alive b \<and> intersects e (ball_rect ?p) (rect b)))
                \<and> ?c = ?p
                \<and> score s' = score s
                \<and> (bricks s' = bricks s \<or> (\<forall>b \<in> set (bricks s'). alive b))
            | Some i \<Rightarrow>
                i < length (bricks s) \<and> alive (bricks s ! i)
                \<and> intersects e (ball_rect ?p) (rect (bricks s ! i))
                \<and> (\<forall>j < i. \<not> (alive (bricks s ! j)
                       \<and> intersects e (ball_rect ?p) (rect (bricks s ! j))))
                \<and> bricks ?c = (bricks s)[i := (bricks s ! i)\<lparr>alive := False\<rparr>]
                \<and> killed (bricks s) (bricks ?c) = {i}
                \<and> ball_vy ?c = - ball_vy ?p
                \<and> score s' = score s + 10
                \<and> (bricks s' = (bricks s)[i := (bricks s ! i)\<lparr>alive := False\<rparr>]
                     \<or> (\<forall>b \<in> set (bricks s'). alive b)))"
    if inplay: "launched s" "\<not> game_over s"
  proof -
    obtain s' where s': "tick e s = Inr s'" "score s' = score ?c"
      "bricks s' = bricks ?c \<or> (\<forall>b \<in> set (bricks s'). alive b)"
      using tick_in_play_bricks [OF inplay, of e] by blast
    show ?thesis
    proof (cases "first_hit e (ball_rect ?p) (bricks s)")
      case None
      then have miss: "?c = ?p" using brick_collision_miss [of e ?p] bp by simp
      have "\<forall>b \<in> set (bricks s). \<not> (alive b \<and> intersects e (ball_rect ?p) (rect b))"
        using None by (simp add: first_hit_None)
      then show ?thesis using None s' miss bp sp by auto
    next
      case (Some i)
      then have h: "first_hit e (ball_rect ?p) (bricks ?p) = Some i" using bp by simp
      note fs = first_hit_Some [OF Some]
      have b: "bricks ?c = (bricks s)[i := (bricks s ! i)\<lparr>alive := False\<rparr>]"
        using brick_collision_hit(1) [OF h] bp by simp
      have k: "killed (bricks s) (bricks ?c) = {i}"
        unfolding b using fs by (simp add: killed_update)
      have v: "ball_vy ?c = - ball_vy ?p" by (rule brick_collision_hit(3) [OF h])
      have sc: "score s' = score s + 10"
        using s'(2) brick_collision_hit(2) [OF h] sp by simp
      show ?thesis using Some s'(1,3) fs b k v sc by auto
    qed
  qed
  have idle: "\<exists>s'. tick e s = Inr s' \<and> bricks s' = bricks s \<and> score s' = score s"
    if "\<not> (launched s \<and> \<not> game_over s)"
    using that by (rule tick_not_in_play)
  have count: "\<exists>s'. tick e s = Inr s' \<and> card (killed (bricks s) (bricks s')) \<le> 1"
  proof (cases "launched s \<and> \<not> game_over s")
    case False
    from idle [OF False] show ?thesis by (auto simp: killed_same)
  next
    case True
    then obtain s' where s': "tick e s = Inr s'"
      "bricks s' = bricks ?c \<or> (\<forall>b \<in> set (bricks s'). alive b)"
      using tick_in_play_bricks [of s e] by blast
    have "card (killed (bricks s) (bricks ?c)) \<le> 1"
    proof (cases "first_hit e (ball_rect ?p) (bricks s)")
      case None
      then have "?c = ?p" using brick_collision_miss [of e ?p] bp by simp
      then show ?thesis using bp by (simp add: killed_same)
    next
      case (Some i)
      then have h: "first_hit e (ball_rect ?p) (bricks ?p) = Some i" using bp by simp
      have "bricks ?c = (bricks s)[i := (bricks s ! i)\<lparr>alive := False\<rparr>]"
        using brick_collision_hit(1) [OF h] bp by simp
      then show ?thesis using first_hit_Some [OF Some] by (simp add: killed_update)
    qed
    moreover have "card (killed (bricks s) (bricks s')) \<le> 1"
      if "\<forall>b \<in> set (bricks s'). alive b"
      using killed_fresh [OF that, of "bricks s"] by simp
    ultimately have "card (killed (bricks s) (bricks s')) \<le> 1" using s'(2) by auto
    then show ?thesis using s'(1) by blast
  qed
  show ?thesis using count play idle by blast
qed

lemma overlapping_ball:
  "ball_rect (at_brick_scan (sample_env 800 7) (sample_state 101.2 100.4 True False 3))
     = \<lparr>rx = 98, ry = 98, rw = 14, rh = 14\<rparr>"
  by (simp add: at_brick_scan_def paddle_collision_def integrate_and_walls_def move_paddle_def
      ball_rect_def Let_def sample_state_def sample_env_def overlaps_def
      viewport_w_def viewport_h_def paddle_w_def paddle_h_def paddle_speed_def ball_r_def)

theorem one_brick_per_tick_witness:
  "launched (sample_state 101.2 100.4 True False 3)
   \<and> \<not> game_over (sample_state 101.2 100.4 True False 3)
   \<and> bricks (sample_state 101.2 100.4 True False 3)
        = [sample_brick 400 100 True, sample_brick 100 100 True, sample_brick 90 95 True]
   \<and> overlaps \<lparr>rx = 98, ry = 98, rw = 14, rh = 14\<rparr> (rect (sample_brick 100 100 True))
   \<and> overlaps \<lparr>rx = 98, ry = 98, rw = 14, rh = 14\<rparr> (rect (sample_brick 90 95 True))
   \<and> first_hit (sample_env 800 7)
        (ball_rect (at_brick_scan (sample_env 800 7) (sample_state 101.2 100.4 True False 3)))
        (bricks (sample_state 101.2 100.4 True False 3)) = Some 1
   \<and> (\<exists>s'. tick (sample_env 800 7) (sample_state 101.2 100.4 True False 3) = Inr s'
         \<and> bricks s'
             = [sample_brick 400 100 True, sample_brick 100 100 False, sample_brick 90 95 True]
         \<and> score s' = 10
         \<and> card (killed (bricks (sample_state 101.2 100.4 True False 3)) (bricks s')) \<le> 1)"
proof -
  let ?E = "sample_env 800 7"
  let ?S = "sample_state 101.2 100.4 True False 3"
  have st: "launched ?S" "\<not> game_over ?S" "score ?S = 0"
    "bricks ?S = [sample_brick 400 100 True, sample_brick 100 100 True, sample_brick 90 95 True]"
    by (simp_all add: sample_state_def)
  have o1: "overlaps \<lparr>rx = 98, ry = 98, rw = 14, rh = 14\<rparr> (rect (sample_brick 100 100 True))"
    and o2: "overlaps \<lparr>rx = 98, ry = 98, rw = 14, rh = 14\<rparr> (rect (sample_brick 90 95 True))"
    by (simp_all add: overlaps_def sample_brick_def)
  have fh: "first_hit ?E (ball_rect (at_brick_scan ?E ?S)) (bricks ?S) = Some 1"
    unfolding overlapping_ball st(4)
    by (simp add: sample_env_def sample_brick_def overlaps_def)
  have up: "(bricks ?S)[1 := (bricks ?S ! 1)\<lparr>alive := False\<rparr>]
      = [sample_brick 400 100 True, sample_brick 100 100 False, sample_brick 90 95 True]"
    unfolding st(4) by (simp add: sample_brick_def)
  from one_brick_per_tick [of ?E ?S]
  obtain s1 where s1: "tick ?E ?S = Inr s1" "card (killed (bricks ?S) (bricks s1)) \<le> 1"
    by blast
  from one_brick_per_tick [of ?E ?S] st(1,2)
  obtain s2 where s2: "tick ?E ?S = Inr s2"
    "(case first_hit ?E (ball_rect (at_brick_scan ?E ?S)) (bricks ?S) of
        None \<Rightarrow> True
      | Some i \<Rightarrow> score s2 = score ?S + 10
          \<and> bricks (brick_collision ?E (at_brick_scan ?E ?S))
                = (bricks ?S)[i := (bricks ?S ! i)\<lparr>alive := False\<rparr>])"
    by (auto split: option.splits)
  have same: "s2 = s1" using s1(1) s2(1) by simp
  have sc: "score s1 = 10" using s2(2) fh st(3) same by simp
  have bc: "bricks (brick_collision ?E (at_brick_scan ?E ?S))
      = [sample_brick 400 100 True, sample_brick 100 100 False, sample_brick 90 95 True]"
    using s2(2) fh up by simp
  have "tick ?E ?S = Inr (bottom_fall ?E (brick_collision ?E (at_brick_scan ?E ?S)))"
    using tick_in_play [OF st(1,2), of ?E] bc
    by (simp add: before_bottom_check_def level_clear_def sample_brick_def)
  then have "bricks s1 = bricks (brick_collision ?E (at_brick_scan ?E ?S))"
    using s1(1) by auto
  then have "bricks s1
      = [sample_brick 400 100 True, sample_brick 100 100 False, sample_brick 90 95 True]"
    using bc by simp
  then show ?thesis using st(1,2,4) o1 o2 fh s1 sc by blast
qed

end
